theory Spec2Isabelle
  imports Main
begin

section \<open>Python strings over Latin-1\<close>

text \<open>
  A Python \<^verbatim>\<open>str\<close> is a sequence of Unicode code points. It is modelled as a
  \<^typ>\<open>string\<close> whose characters stand for the code points 0 to 255 (Latin-1): this range
  holds every character that the patterns of \<^verbatim>\<open>extrator_decisoes.py\<close> mention.
  The predicates below are the restrictions to that range of the Unicode predicates
  that CPython uses for \<^verbatim>\<open>str.isspace\<close>, \<^verbatim>\<open>str.isdigit\<close>, \<^verbatim>\<open>str.isupper\<close>,
  \<^verbatim>\<open>str.lower\<close> and for the classes \<^verbatim>\<open>\s\<close>, \<^verbatim>\<open>\d\<close>, \<^verbatim>\<open>\w\<close> of the module \<^verbatim>\<open>re\<close>.
\<close>

definition cp :: "char \<Rightarrow> nat" where
  "cp c = of_char c"

text \<open>\<^verbatim>\<open>str.isspace\<close> and \<^verbatim>\<open>\s\<close>: 0x09-0x0D, 0x1C-0x20, 0x85, 0xA0.\<close>

definition is_space :: "char \<Rightarrow> bool" where
  "is_space c = ((9 \<le> cp c \<and> cp c \<le> 13) \<or> (28 \<le> cp c \<and> cp c \<le> 32) \<or> cp c = 133 \<or> cp c = 160)"

text \<open>\<^verbatim>\<open>\d\<close> (the decimal digits, category Nd): only 0-9 below 256.\<close>

definition is_decimal :: "char \<Rightarrow> bool" where
  "is_decimal c = (48 \<le> cp c \<and> cp c \<le> 57)"

text \<open>\<^verbatim>\<open>str.isdigit\<close> on one character: the decimal digits and the superscripts
  two (0xB2), three (0xB3) and one (0xB9).\<close>

definition is_digit :: "char \<Rightarrow> bool" where
  "is_digit c = (is_decimal c \<or> cp c = 178 \<or> cp c = 179 \<or> cp c = 185)"

definition is_upper_chr :: "char \<Rightarrow> bool" where
  "is_upper_chr c = ((65 \<le> cp c \<and> cp c \<le> 90) \<or> (192 \<le> cp c \<and> cp c \<le> 214) \<or> (216 \<le> cp c \<and> cp c \<le> 222))"

definition is_lower_chr :: "char \<Rightarrow> bool" where
  "is_lower_chr c = ((97 \<le> cp c \<and> cp c \<le> 122) \<or> cp c = 170 \<or> cp c = 181 \<or> cp c = 186
     \<or> (223 \<le> cp c \<and> cp c \<le> 246) \<or> (248 \<le> cp c \<and> cp c \<le> 255))"

text \<open>\<^verbatim>\<open>\w\<close>: alphanumeric (\<^verbatim>\<open>str.isalnum\<close>) or the underscore.\<close>

definition is_word :: "char \<Rightarrow> bool" where
  "is_word c = (is_digit c \<or> is_upper_chr c \<or> is_lower_chr c \<or> cp c = 95
     \<or> (188 \<le> cp c \<and> cp c \<le> 190))"

definition py_lower :: "char \<Rightarrow> char" where
  "py_lower c = (if is_upper_chr c then char_of (cp c + 32) else c)"

text \<open>\<^verbatim>\<open>s.strip()\<close>\<close>

definition str_strip :: "string \<Rightarrow> string" where
  "str_strip s = rev (dropWhile is_space (rev (dropWhile is_space s)))"

text \<open>\<^verbatim>\<open>s.isupper()\<close>: no lower-case character and at least one upper-case one.\<close>

definition str_isupper :: "string \<Rightarrow> bool" where
  "str_isupper s = (\<not> list_ex is_lower_chr s \<and> list_ex is_upper_chr s)"

text \<open>\<^verbatim>\<open>s.isdigit()\<close>: false on the empty string.\<close>

definition str_isdigit :: "string \<Rightarrow> bool" where
  "str_isdigit s = (s \<noteq> [] \<and> list_all is_digit s)"

text \<open>\<^verbatim>\<open>sep.join(xs)\<close>\<close>

fun str_join :: "string \<Rightarrow> string list \<Rightarrow> string" where
  "str_join sep [] = []"
| "str_join sep [x] = x"
| "str_join sep (x # y # ys) = x @ sep @ str_join sep (y # ys)"

text \<open>\<^verbatim>\<open>s.splitlines()\<close>: the line boundaries below 256 are LF, VT, FF, CR, CR LF,
  0x1C, 0x1D, 0x1E and 0x85; a final line break opens no further line.\<close>

definition is_linebreak :: "char \<Rightarrow> bool" where
  "is_linebreak c = ((10 \<le> cp c \<and> cp c \<le> 13) \<or> (28 \<le> cp c \<and> cp c \<le> 30) \<or> cp c = 133)"

fun splitlines_from :: "string \<Rightarrow> string \<Rightarrow> string list" where
  "splitlines_from cur [] = (if cur = [] then [] else [cur])"
| "splitlines_from cur [c] = (if is_linebreak c then [cur] else [cur @ [c]])"
| "splitlines_from cur (c # d # cs) =
     (if c = CHR 0x0D \<and> d = CHR 0x0A then cur # splitlines_from [] cs
      else if is_linebreak c then cur # splitlines_from [] (d # cs)
      else splitlines_from (cur @ [c]) (d # cs))"

definition splitlines :: "string \<Rightarrow> string list" where
  "splitlines s = splitlines_from [] s"

section \<open>The regular expressions of the module, as data\<close>

text \<open>
  The fragment of \<^verbatim>\<open>re\<close> that the source uses: a literal, a set \<^verbatim>\<open>[...]\<close>, \<^verbatim>\<open>\d\<close>,
  \<^verbatim>\<open>\s\<close>, greedy repetition of one of these (\<^verbatim>\<open>*\<close>, \<^verbatim>\<open>+\<close>, \<^verbatim>\<open>{n}\<close>), the
  assertions \<^verbatim>\<open>^\<close>, \<^verbatim>\<open>$\<close> and \<^verbatim>\<open>\b\<close>, sequence, alternation and a numbered group.
\<close>

datatype cset = Lit char | OneOf string | Digit | Space

datatype rx =
    Chr cset
  | Rep cset nat "nat option"
  | Bol
  | Eol
  | WordB
  | Eps
  | Cat rx rx
  | Alt rx rx
  | Grp nat rx

text \<open>With \<^verbatim>\<open>re.IGNORECASE\<close> (the flag \<open>ic\<close>) a literal and a set compare lower-cased
  characters.\<close>

fun cset_match :: "bool \<Rightarrow> cset \<Rightarrow> char \<Rightarrow> bool" where
  "cset_match ic (Lit a) c = (if ic then py_lower c = py_lower a else c = a)"
| "cset_match ic (OneOf as) c = (if ic then py_lower c \<in> set (map py_lower as) else c \<in> set as)"
| "cset_match ic Digit c = is_decimal c"
| "cset_match ic Space c = is_space c"

type_synonym caps = "(nat \<times> nat \<times> nat) list"

definition word_at :: "string \<Rightarrow> nat \<Rightarrow> bool" where
  "word_at s i = (i < length s \<and> is_word (s ! i))"

definition word_before :: "string \<Rightarrow> nat \<Rightarrow> bool" where
  "word_before s i = (0 < i \<and> word_at s (i - 1))"

text \<open>
  \<open>rmatch ic r s (i, g)\<close> lists, in the order in which the backtracking matcher of
  \<^verbatim>\<open>re\<close> tries them, the ways \<open>r\<close> matches \<open>s\<close> from position \<open>i\<close>: each is the
  end position with the groups captured so far (\<open>g\<close> at the start). A greedy repetition
  tries the longest run first, an alternation its left branch first.
\<close>

fun rmatch :: "bool \<Rightarrow> rx \<Rightarrow> string \<Rightarrow> nat \<times> caps \<Rightarrow> (nat \<times> caps) list" where
  "rmatch ic (Chr cs) s (i, g) =
     (if i < length s \<and> cset_match ic cs (s ! i) then [(Suc i, g)] else [])"
| "rmatch ic (Rep cs lo hi) s (i, g) =
     (let n = length (takeWhile (cset_match ic cs) (drop i s));
          m = (case hi of None \<Rightarrow> n | Some h \<Rightarrow> min n h)
      in map (\<lambda>k. (i + k, g)) (rev [lo..<Suc m]))"
| "rmatch ic Bol s (i, g) = (if i = 0 then [(i, g)] else [])"
| "rmatch ic Eol s (i, g) =
     (if i = length s \<or> (Suc i = length s \<and> s ! i = CHR 0x0A) then [(i, g)] else [])"
| "rmatch ic WordB s (i, g) = (if word_before s i \<noteq> word_at s i then [(i, g)] else [])"
| "rmatch ic Eps s (i, g) = [(i, g)]"
| "rmatch ic (Cat a b) s (i, g) = concat (map (rmatch ic b s) (rmatch ic a s (i, g)))"
| "rmatch ic (Alt a b) s (i, g) = rmatch ic a s (i, g) @ rmatch ic b s (i, g)"
| "rmatch ic (Grp n r) s (i, g) = map (\<lambda>(j, g'). (j, (n, i, j) # g')) (rmatch ic r s (i, g))"

text \<open>A match object: start, end and groups.\<close>

type_synonym rmatch_obj = "nat \<times> nat \<times> caps"

definition match_at :: "bool \<Rightarrow> rx \<Rightarrow> string \<Rightarrow> nat \<Rightarrow> rmatch_obj option" where
  "match_at ic r s i = (case rmatch ic r s (i, []) of [] \<Rightarrow> None | (j, g) # _ \<Rightarrow> Some (i, j, g))"

fun first_some :: "('a \<Rightarrow> 'b option) \<Rightarrow> 'a list \<Rightarrow> 'b option" where
  "first_some f [] = None"
| "first_some f (x # xs) = (case f x of None \<Rightarrow> first_some f xs | Some y \<Rightarrow> Some y)"

text \<open>\<^verbatim>\<open>pattern.match(s)\<close> tries position 0 only; \<^verbatim>\<open>pattern.search(s)\<close> tries the
  positions 0 to \<^verbatim>\<open>len(s)\<close> from the left.\<close>

definition re_match :: "bool \<Rightarrow> rx \<Rightarrow> string \<Rightarrow> rmatch_obj option" where
  "re_match ic r s = match_at ic r s 0"

definition re_search_from :: "bool \<Rightarrow> rx \<Rightarrow> string \<Rightarrow> nat \<Rightarrow> rmatch_obj option" where
  "re_search_from ic r s p = first_some (match_at ic r s) [p..<Suc (length s)]"

definition re_search :: "bool \<Rightarrow> rx \<Rightarrow> string \<Rightarrow> rmatch_obj option" where
  "re_search ic r s = re_search_from ic r s 0"

text \<open>\<^verbatim>\<open>m.group(n)\<close> for a group that took part in the match.\<close>

definition group :: "string \<Rightarrow> rmatch_obj \<Rightarrow> nat \<Rightarrow> string option" where
  "group s m n = (case map_of (snd (snd m)) n of None \<Rightarrow> None
                   | Some (a, b) \<Rightarrow> Some (take (b - a) (drop a s)))"

definition rseq :: "rx list \<Rightarrow> rx" where
  "rseq rs = foldr Cat rs Eps"

definition lits :: "string \<Rightarrow> rx" where
  "lits s = rseq (map (\<lambda>c. Chr (Lit c)) s)"

section \<open>Line classification\<close>

text \<open>Characters outside ASCII that the patterns use, by code point.\<close>

abbreviation A_acute :: char where "A_acute \<equiv> CHR 0xC1"
abbreviation A_tilde :: char where "A_tilde \<equiv> CHR 0xC3"
abbreviation C_cedilla :: char where "C_cedilla \<equiv> CHR 0xC7"
abbreviation O_acute :: char where "O_acute \<equiv> CHR 0xD3"
abbreviation a_acute :: char where "a_acute \<equiv> CHR 0xE1"
abbreviation e_acute :: char where "e_acute \<equiv> CHR 0xE9"
abbreviation o_acute :: char where "o_acute \<equiv> CHR 0xF3"
abbreviation o_circ :: char where "o_circ \<equiv> CHR 0xF4"
abbreviation ord_masc :: char where "ord_masc \<equiv> CHR 0xBA"

definition HEADER_PATTERNS :: "rx list" where
  "HEADER_PATTERNS =
    [rseq [Bol, lits ''PODER JUDICI'', Chr (OneOf [A_acute, CHR ''A'']), lits ''RIO''],
     rseq [Bol, lits ''Comarca de''],
     rseq [Bol, lits ''Vara ''],
     rseq [Bol, lits ''F'', Chr (OneOf [CHR ''o'', o_acute]), lits ''rum''],
     rseq [lits ''CEP:'', Rep Space 0 None, Rep Digit 5 (Some 5), Chr (Lit CHR ''-''),
           Rep Digit 3 (Some 3)],
     rseq [Bol, Rep Space 0 None, lits ''Tel''],
     rseq [Bol, Rep Space 0 None, lits ''Email'']]"

definition FOOTER_PATTERNS :: "rx list" where
  "FOOTER_PATTERNS =
    [rseq [Bol, lits (''Este documento '' @ [e_acute] @ '' c'' @ [o_acute] @ ''pia do original'')],
     rseq [Bol, lits ''Para conferir o original''],
     rseq [Bol, lits (''Documento eletr'' @ [o_circ] @ ''nico assinado por'')],
     rseq [Bol, lits ''fls'', Chr (Lit CHR ''.''), Rep Space 0 None, Rep Digit 1 None]]"

text \<open>Both lists are compiled with \<^verbatim>\<open>re.IGNORECASE\<close>.\<close>

definition is_header_line :: "string \<Rightarrow> bool" where
  "is_header_line line0 =
     (let line = str_strip line0 in
      if line = [] then False
      else list_ex (\<lambda>r. re_search True r line \<noteq> None) HEADER_PATTERNS)"

definition is_footer_line :: "string \<Rightarrow> bool" where
  "is_footer_line line0 =
     (let line = str_strip line0 in
      if line = [] then False
      else list_ex (\<lambda>r. re_search True r line \<noteq> None) FOOTER_PATTERNS)"

section \<open>Paragraph reflow: \<^verbatim>\<open>merge_lines\<close>\<close>

definition sec_pattern :: rx where
  "sec_pattern =
     rseq [Bol, Rep Digit 1 None, Chr (Lit CHR ''.''), Rep Space 0 None,
           Grp 1 (Alt (rseq [lits ''RELAT'', Chr (OneOf [O_acute, CHR ''O'']), lits ''RIO''])
                 (Alt (rseq [lits ''FUNDAMENTA'', Chr (OneOf [C_cedilla, CHR ''C'']),
                             Chr (OneOf [A_tilde, CHR ''A'']), lits ''O''])
                      (lits ''DISPOSITIVO''))),
           WordB]"

text \<open>The pattern \<^verbatim>\<open>[.!?;:]$\<close> of the buffer test, compiled without flags.\<close>

definition punct_end :: rx where
  "punct_end = rseq [Chr (OneOf ''.!?;:''), Eol]"

text \<open>
  One iteration of the loop over \<^verbatim>\<open>lines\<close>, on the state \<open>(merged, buffer)\<close>.
  Python tests \<^verbatim>\<open>if buffer\<close>, which is \<open>buffer \<noteq> []\<close>.
\<close>

definition merge_step :: "string list \<times> string \<Rightarrow> string \<Rightarrow> string list \<times> string" where
  "merge_step st raw_line =
     (case st of (merged, buffer) \<Rightarrow>
        let line = str_strip raw_line in
        if line = [] then
          (if buffer \<noteq> [] then (merged @ [str_strip buffer], []) else (merged, buffer))
        else if re_match True sec_pattern line \<noteq> None \<or> str_isupper line then
          (if buffer \<noteq> [] then ((merged @ [str_strip buffer]) @ [line], [])
           else (merged @ [line], buffer))
        else if buffer = [] then (merged, line)
        else if re_search False punct_end buffer \<noteq> None then (merged @ [str_strip buffer], line)
        else (merged, buffer @ '' '' @ line))"

definition merge_finish :: "string list \<times> string \<Rightarrow> string list" where
  "merge_finish st =
     (case st of (merged, buffer) \<Rightarrow>
        if buffer \<noteq> [] then merged @ [str_strip buffer] else merged)"

definition merge_lines :: "string list \<Rightarrow> string list" where
  "merge_lines lines = merge_finish (foldl merge_step ([], []) lines)"

section \<open>Section headings: \<^verbatim>\<open>normalize_paragraphs\<close>\<close>

text \<open>
  \<^verbatim>\<open>re.sub(pattern, repl, s)\<close> for a replacement without escapes: the matches are
  searched from the left, each search starting where the previous match ended; a match
  that is empty and starts where the previous match ended is refused when that match was
  empty too (the flag \<open>adv\<close>), so that the scan advances.
\<close>

definition match_at_adv :: "bool \<Rightarrow> rx \<Rightarrow> string \<Rightarrow> nat \<Rightarrow> bool \<Rightarrow> rmatch_obj option" where
  "match_at_adv ic r s i adv =
     (case filter (\<lambda>(j, g). \<not> (adv \<and> j = i)) (rmatch ic r s (i, [])) of
        [] \<Rightarrow> None
      | (j, g) # _ \<Rightarrow> Some (i, j, g))"

definition search_adv :: "bool \<Rightarrow> rx \<Rightarrow> string \<Rightarrow> nat \<Rightarrow> bool \<Rightarrow> rmatch_obj option" where
  "search_adv ic r s i adv =
     (case match_at_adv ic r s i adv of
        Some m \<Rightarrow> Some m
      | None \<Rightarrow> re_search_from ic r s (Suc i))"

function sub_from :: "bool \<Rightarrow> rx \<Rightarrow> string \<Rightarrow> string \<Rightarrow> nat \<Rightarrow> bool \<Rightarrow> string" where
  "sub_from ic r repl s i adv =
     (case search_adv ic r s i adv of
        None \<Rightarrow> drop i s
      | Some (b, e, g) \<Rightarrow> take (b - i) (drop i s) @ repl @ sub_from ic r repl s e (e = b))"
  by pat_completeness auto

termination sub_from
proof (relation "measure (\<lambda>(ic, r, repl, s, i, adv). 2 * (length s - i) + (if adv then 0 else 1))")
  show "wf (measure (\<lambda>(ic, r, repl, s, i, adv). 2 * (length s - i) + (if adv then 0 else 1)))"
    by simp
next
  fix ic :: bool and r :: rx and repl s :: string and i :: nat and adv :: bool
    and x2 :: rmatch_obj and b :: nat and y :: "nat \<times> caps" and e :: nat and g :: caps
  assume a: "search_adv ic r s i adv = Some x2" "(b, y) = x2" "(e, g) = y"
  have bounds: "(j, g') \<in> set (rmatch ic r s (k, g0)) \<Longrightarrow> k \<le> j \<and> (k < j \<longrightarrow> j \<le> length s)"
    for j g' r k g0
  proof (induction r arbitrary: k g0 j g')
    case (Rep cs lo hi)
    have "length (takeWhile (cset_match ic cs) (drop k s)) \<le> length s - k"
      using length_takeWhile_le [of "cset_match ic cs" "drop k s"] by simp
    moreover from Rep obtain x where "j = k + x"
      and "x \<le> length (takeWhile (cset_match ic cs) (drop k s))"
      by (auto simp: Let_def split: option.splits)
    ultimately show ?case by auto
  next
    case (Cat a b)
    then show ?case by fastforce
  qed (auto split: if_splits)
  have fs: "first_some f xs = Some z \<Longrightarrow> \<exists>x \<in> set xs. f x = Some z" for f :: "nat \<Rightarrow> rmatch_obj option" and xs z
    by (induction xs) (auto split: option.splits)
  from a have sr: "search_adv ic r s i adv = Some (b, e, g)" by simp
  have "2 * (length s - e) + (if e = b then 0 else 1) < 2 * (length s - i) + (if adv then 0 else 1)"
  proof (cases "match_at_adv ic r s i adv")
    case (Some m')
    with sr have m': "m' = (b, e, g)" by (simp add: search_adv_def)
    from Some m' obtain rest where "b = i"
      and flt: "filter (\<lambda>(j, g). \<not> (adv \<and> j = i)) (rmatch ic r s (i, [])) = (e, g) # rest"
      by (auto simp: match_at_adv_def split: list.splits)
    have mem: "(e, g) \<in> set (filter (\<lambda>(j, g). \<not> (adv \<and> j = i)) (rmatch ic r s (i, [])))"
      by (simp only: flt list.set insertI1)
    from mem have "(e, g) \<in> set (rmatch ic r s (i, []))" and na: "\<not> (adv \<and> e = i)" by auto
    from bounds [OF this(1)] have "i \<le> e" "i < e \<longrightarrow> e \<le> length s" by auto
    with \<open>b = i\<close> na show ?thesis by auto
  next
    case None
    with sr have "re_search_from ic r s (Suc i) = Some (b, e, g)" by (simp add: search_adv_def)
    then obtain k where k: "k \<in> set [Suc i..<Suc (length s)]" "match_at ic r s k = Some (b, e, g)"
      unfolding re_search_from_def by (blast dest: fs)
    then have "b = k" "(e, g) \<in> set (rmatch ic r s (k, []))"
      by (auto simp: match_at_def split: list.splits)
    from bounds [OF this(2)] k(1) \<open>b = k\<close> show ?thesis by auto
  qed
  then show "((ic, r, repl, s, e, e = b), ic, r, repl, s, i, adv)
       \<in> measure (\<lambda>(ic, r, repl, s, i, adv). 2 * (length s - i) + (if adv then 0 else 1))"
    by simp
qed
definition re_sub :: "bool \<Rightarrow> rx \<Rightarrow> string \<Rightarrow> string \<Rightarrow> string" where
  "re_sub ic r repl s = sub_from ic r repl s 0 False"

definition relatorio_heading :: rx where
  "relatorio_heading =
     rseq [Bol, Rep Digit 1 None, Chr (Lit CHR ''.''), Rep Space 0 None,
           lits ''RELAT'', Chr (OneOf [O_acute, CHR ''O'']), lits ''RIO'', WordB]"

definition fundamentacao_heading :: rx where
  "fundamentacao_heading =
     rseq [Bol, Rep Digit 1 None, Chr (Lit CHR ''.''), Rep Space 0 None,
           lits ''FUNDAMENTA'', Chr (OneOf [C_cedilla, CHR ''C'']),
           Chr (OneOf [A_tilde, CHR ''A'']), lits ''O'', WordB]"

definition dispositivo_heading :: rx where
  "dispositivo_heading =
     rseq [Bol, Rep Digit 1 None, Chr (Lit CHR ''.''), Rep Space 0 None,
           lits ''DISPOSITIVO'', WordB]"

text \<open>The body of the loop: the three substitutions, each on the result of the one before.\<close>

definition normalize_paragraph :: "string \<Rightarrow> string" where
  "normalize_paragraph p =
     (let p_norm = re_sub True relatorio_heading ''### RELATORIO'' p;
          p_norm = re_sub True fundamentacao_heading ''### FUNDAMENTACAO'' p_norm;
          p_norm = re_sub True dispositivo_heading ''### DISPOSITIVO'' p_norm
      in p_norm)"

fun normalize_paragraphs :: "string list \<Rightarrow> string list" where
  "normalize_paragraphs [] = []"
| "normalize_paragraphs (p # ps) = normalize_paragraph p # normalize_paragraphs ps"

section \<open>Case number: \<^verbatim>\<open>extrair_numero_processo\<close>\<close>

text \<open>The capture group: the shape NNNNNNN-DD.AAAA.J.TT.OOOO.\<close>

definition numero_shape :: rx where
  "numero_shape =
     rseq [Rep Digit 7 (Some 7), Chr (Lit CHR ''-''), Rep Digit 2 (Some 2), Chr (Lit CHR ''.''),
           Rep Digit 4 (Some 4), Chr (Lit CHR ''.''), Chr Digit, Chr (Lit CHR ''.''),
           Rep Digit 2 (Some 2), Chr (Lit CHR ''.''), Rep Digit 4 (Some 4)]"

definition padrao_numero :: rx where
  "padrao_numero =
     rseq [lits ''Processo'', Rep Space 1 None, lits ''n'', Chr (OneOf [ord_masc, CHR ''#'']),
           Chr (Lit CHR '':''), Rep Space 0 None, Grp 1 numero_shape]"

text \<open>
  \<^verbatim>\<open>Path(p).name\<close> and \<^verbatim>\<open>Path(p).stem\<close> of \<^verbatim>\<open>pathlib\<close> on a POSIX system: the
  path is split at \<^verbatim>\<open>/\<close>, empty components and \<^verbatim>\<open>.\<close> are dropped, the name is the
  last component left (empty when none is), and the stem is the name up to its last dot
  unless that dot is the first or the last character of the name.
\<close>

fun str_split :: "char \<Rightarrow> string \<Rightarrow> string list" where
  "str_split sep [] = [[]]"
| "str_split sep (c # cs) =
     (if c = sep then [] # str_split sep cs
      else (case str_split sep cs of [] \<Rightarrow> [[c]] | w # ws \<Rightarrow> (c # w) # ws))"

definition path_name :: "string \<Rightarrow> string" where
  "path_name p =
     (case filter (\<lambda>x. x \<noteq> [] \<and> x \<noteq> ''.'') (str_split CHR ''/'' p) of
        [] \<Rightarrow> []
      | x # xs \<Rightarrow> last (x # xs))"

text \<open>\<^verbatim>\<open>s.rfind(c)\<close>, with \<open>None\<close> for -1.\<close>

definition str_rfind :: "char \<Rightarrow> string \<Rightarrow> nat option" where
  "str_rfind c s =
     (if c \<in> set s then Some (length s - 1 - length (takeWhile (\<lambda>x. x \<noteq> c) (rev s))) else None)"

definition path_stem :: "string \<Rightarrow> string" where
  "path_stem p =
     (let name = path_name p in
      case str_rfind CHR ''.'' name of
        None \<Rightarrow> name
      | Some i \<Rightarrow> if 0 < i \<and> i < length name - 1 then take i name else name)"

text \<open>The slice \<^verbatim>\<open>s[a:b]\<close> for \<open>0 \<le> a \<le> b\<close>.\<close>

definition slice :: "string \<Rightarrow> nat \<Rightarrow> nat \<Rightarrow> string" where
  "slice s a b = take (b - a) (drop a s)"

definition extrair_numero_processo :: "string \<Rightarrow> string \<Rightarrow> string option" where
  "extrair_numero_processo text nome_arquivo =
     (case re_search True padrao_numero text of
        Some m_numero \<Rightarrow> group text m_numero 1
      | None \<Rightarrow>
          let nome_sem_ext = path_stem nome_arquivo in
          if length nome_sem_ext = 20 \<and> str_isdigit nome_sem_ext then
            Some (slice nome_sem_ext 0 7 @ ''-'' @ slice nome_sem_ext 7 9 @ ''.''
                  @ slice nome_sem_ext 9 13 @ ''.'' @ [nome_sem_ext ! 13] @ ''.''
                  @ slice nome_sem_ext 14 16 @ ''.'' @ slice nome_sem_ext 16 20)
          else None)"

section \<open>The pipeline: \<^verbatim>\<open>extrair_info_pdf\<close>\<close>

text \<open>
  The PDF library is outside the module. What the pipeline sees of it is modelled as
  data: \<^verbatim>\<open>pdfplumber.open\<close> raises an exception \<open>e\<close> (given by \<^verbatim>\<open>str(e)\<close>) or gives the
  pages; \<^verbatim>\<open>page.extract_text()\<close> raises, or returns \<^verbatim>\<open>None\<close> or a string.
\<close>

datatype page = Extracts "string option" | ExtractRaises string

datatype source = OpenRaises string | Opened "page list"

record resultado =
  arquivo :: string
  numeroProcesso :: "string option"
  texto_completo_limpo :: string
  sucesso :: bool
  erro :: "string option"

text \<open>The loop over \<^verbatim>\<open>text.splitlines()\<close>: what one page appends to \<^verbatim>\<open>cleaned_lines\<close>.\<close>

fun clean_page_lines :: "string list \<Rightarrow> string list" where
  "clean_page_lines [] = []"
| "clean_page_lines (line # ls) =
     (if is_header_line line \<or> is_footer_line line then clean_page_lines ls
      else if str_strip line = [] then [] # clean_page_lines ls
      else line # clean_page_lines ls)"

text \<open>
  The loop over \<^verbatim>\<open>pdf.pages\<close> on the state \<open>(all_text_pages, cleaned_lines)\<close>. A page
  whose extraction raises leaves the state as it was (the handler only logs a warning,
  which the model leaves out).
\<close>

fun read_pages :: "page list \<Rightarrow> string list \<times> string list \<Rightarrow> string list \<times> string list" where
  "read_pages [] st = st"
| "read_pages (ExtractRaises page_error # ps) st = read_pages ps st"
| "read_pages (Extracts t # ps) (all_text_pages, cleaned_lines) =
     (let text = (case t of None \<Rightarrow> [] | Some x \<Rightarrow> x) in
      read_pages ps (all_text_pages @ [text], cleaned_lines @ clean_page_lines (splitlines text)))"

text \<open>
  The statements after the page loop (lines 219 to 229) are total on strings. The outer
  handler of the function catches what they raise all the same; the argument \<open>fault\<close> stands
  for such an exception: \<open>Some msg\<close> when one with \<^verbatim>\<open>str(e) = msg\<close> is raised there, \<open>None\<close>
  when none is.
\<close>

definition extrair_info_pdf :: "string \<Rightarrow> source \<Rightarrow> string option \<Rightarrow> resultado" where
  "extrair_info_pdf caminho_pdf src fault =
     (let resultado = \<lparr>arquivo = path_name caminho_pdf, numeroProcesso = None,
                        texto_completo_limpo = [], sucesso = False, erro = None\<rparr> in
      case src of
        OpenRaises pdf_error \<Rightarrow>
          resultado\<lparr>erro := Some (''Erro ao abrir PDF: '' @ take 50 pdf_error)\<rparr>
      | Opened pages \<Rightarrow>
          if pages = [] then
            resultado\<lparr>erro := Some (''PDF vazio ou sem p'' @ [a_acute] @ ''ginas'')\<rparr>
          else
            (case read_pages pages ([], []) of (all_text_pages, cleaned_lines) \<Rightarrow>
               (case fault of
                  Some e \<Rightarrow> resultado\<lparr>erro := Some (''Erro ao processar PDF: '' @ e)\<rparr>
                | None \<Rightarrow>
                    let full_raw_text = str_join [CHR 0x0A] all_text_pages;
                        merged = merge_lines cleaned_lines;
                        normalized_paragraphs = normalize_paragraphs merged;
                        texto = str_strip (str_join [CHR 0x0A, CHR 0x0A] normalized_paragraphs);
                        numero_processo = extrair_numero_processo full_raw_text (path_name caminho_pdf)
                    in resultado\<lparr>numeroProcesso := numero_processo,
                                   texto_completo_limpo := texto, sucesso := True\<rparr>)))"

section \<open>Predicates used in the proofs\<close>

text \<open>A string that \<^verbatim>\<open>strip()\<close> leaves as it is: not empty, no white space at either end.\<close>

definition trimmed :: "string \<Rightarrow> bool" where
  "trimmed s = (s \<noteq> [] \<and> \<not> is_space (hd s) \<and> \<not> is_space (last s))"

text \<open>The invariant of the buffer in \<^verbatim>\<open>merge_lines\<close>.\<close>

definition buffer_ok :: "string \<Rightarrow> bool" where
  "buffer_ok b = (b = [] \<or> trimmed b)"

text \<open>A buffer that is empty or holds a finished sentence.\<close>

definition sentence_buffer :: "string \<Rightarrow> bool" where
  "sentence_buffer b = (b = [] \<or> (trimmed b \<and> last b \<in> set ''.!?;:''))"

text \<open>The texts of the pages that extracted, in order (\<^verbatim>\<open>None\<close> counts as the empty text).\<close>

fun page_texts :: "page list \<Rightarrow> string list" where
  "page_texts [] = []"
| "page_texts (ExtractRaises e # ps) = page_texts ps"
| "page_texts (Extracts t # ps) = (case t of None \<Rightarrow> [] | Some x \<Rightarrow> x) # page_texts ps"

text \<open>A page whose extraction returned.\<close>

fun extracted :: "page \<Rightarrow> bool" where
  "extracted (Extracts t) = True"
| "extracted (ExtractRaises e) = False"

text \<open>The cleaned text of a list of page texts: header and footer lines dropped, the rest
  reflowed, normalized and joined by a blank line.\<close>

definition cleaned_text :: "string list \<Rightarrow> string" where
  "cleaned_text texts =
     str_strip (str_join [CHR 0x0A, CHR 0x0A]
       (normalize_paragraphs (merge_lines (concat (map (\<lambda>t. clean_page_lines (splitlines t)) texts)))))"


text \<open>The first two characters of a string, lower-cased.\<close>

definition lead2 :: "string \<Rightarrow> char \<Rightarrow> char \<Rightarrow> bool" where
  "lead2 s a b = (1 < length s \<and> py_lower (s ! 0) = a \<and> py_lower (s ! 1) = b)"

text \<open>Where the section name of a numbered heading starts: after the leading digits, the
  dot and the white space that follows it.\<close>

definition heading_start :: "string \<Rightarrow> nat option" where
  "heading_start s =
     (let n = length (takeWhile is_decimal s) in
      if 1 \<le> n \<and> n < length s \<and> s ! n = CHR ''.''
      then Some (Suc n + length (takeWhile is_space (drop (Suc n) s)))
      else None)"

text \<open>The shape the three heading patterns share: line start, digits, a dot, optional
  white space, then literal characters and a rest.\<close>

definition numbered :: "char \<Rightarrow> string \<Rightarrow> rx \<Rightarrow> rx" where
  "numbered c w t =
     Cat Bol (Cat (Rep Digit 1 None) (Cat (Chr (Lit CHR ''.'')) (Cat (Rep Space 0 None)
       (Cat (lits (c # w)) t))))"

text \<open>
  The pattern of a case number as the specification gives it: seven digits, a hyphen,
  two digits, a dot, four digits, a dot, one digit, a dot, two digits, a dot, four digits,
  the digits being decimal digits. In the shape \<open>None\<close> stands for a digit and \<open>Some c\<close>
  for the character \<open>c\<close>.
\<close>

definition fits :: "char option \<Rightarrow> char \<Rightarrow> bool" where
  "fits p x = (case p of None \<Rightarrow> is_decimal x | Some c \<Rightarrow> x = c)"

definition case_number_shape :: "char option list" where
  "case_number_shape =
     replicate 7 None @ [Some CHR ''-''] @ replicate 2 None @ [Some CHR ''.'']
     @ replicate 4 None @ [Some CHR ''.''] @ [None] @ [Some CHR ''.'']
     @ replicate 2 None @ [Some CHR ''.''] @ replicate 4 None"

definition conforms :: "string \<Rightarrow> bool" where
  "conforms t = list_all2 fits case_number_shape t"

text \<open>The items of a pattern that is a sequence of digits in fixed numbers and of
  characters without case, and the shape such a sequence matches.\<close>

fun simple_item :: "rx \<Rightarrow> bool" where
  "simple_item (Rep Digit k (Some k')) = (k = k')"
| "simple_item (Chr (Lit c)) = (\<not> is_upper_chr c \<and> \<not> is_lower_chr c)"
| "simple_item (Chr Digit) = True"
| "simple_item r = False"

fun item_shape :: "rx \<Rightarrow> char option list" where
  "item_shape (Rep Digit k (Some k')) = replicate k None"
| "item_shape (Chr (Lit c)) = [Some c]"
| "item_shape (Chr Digit) = [None]"
| "item_shape r = []"

section \<open>Facts about \<^verbatim>\<open>strip\<close> and the buffer test\<close>

lemma last_dropWhile: "dropWhile P xs \<noteq> [] \<Longrightarrow> last (dropWhile P xs) = last xs"
  by (induction xs) (auto split: if_splits)

lemma str_strip_Nil: "str_strip [] = []"
  by (simp add: str_strip_def)

lemma str_strip_trimmed: "trimmed s \<Longrightarrow> str_strip s = s"
proof -
  assume t: "trimmed s"
  then obtain c cs where s: "s = c # cs" and c: "\<not> is_space c"
    by (cases s) (auto simp: trimmed_def)
  from t have l: "\<not> is_space (last s)" and ne: "s \<noteq> []" by (auto simp: trimmed_def)
  have 1: "dropWhile is_space s = s" using s c by simp
  have "rev s = rev (butlast s @ [last s])" using ne by simp
  also have "\<dots> = last s # rev (butlast s)" by simp
  finally have r: "rev s = last s # rev (butlast s)" .
  have 2: "dropWhile is_space (rev s) = rev s"
    by (simp only: r dropWhile.simps l if_False)
  show ?thesis by (simp add: str_strip_def 1 2)
qed

lemma trimmed_str_strip: "str_strip s \<noteq> [] \<Longrightarrow> trimmed (str_strip s)"
proof -
  let ?t = "dropWhile is_space s"
  let ?u = "dropWhile is_space (rev ?t)"
  assume ne: "str_strip s \<noteq> []"
  then have u: "?u \<noteq> []" by (simp add: str_strip_def)
  have t: "?t \<noteq> []"
  proof
    assume e: "?t = []"
    have "?u = []" unfolding e by simp
    with u show False ..
  qed
  have "last (rev ?u) = hd ?u" using u by (simp add: last_rev)
  moreover have "\<not> is_space (hd ?u)" using u by (rule hd_dropWhile)
  moreover have "hd (rev ?u) = last ?u" using u by (simp add: hd_rev)
  moreover have "last ?u = last (rev ?t)" using u by (rule last_dropWhile)
  moreover have "last (rev ?t) = hd ?t" using t by (simp add: last_rev)
  moreover have "\<not> is_space (hd ?t)" using t by (rule hd_dropWhile)
  ultimately show ?thesis using u by (simp add: trimmed_def str_strip_def)
qed

lemma str_strip_idem: "str_strip (str_strip s) = str_strip s"
  by (cases "str_strip s = []") (simp_all add: str_strip_Nil str_strip_trimmed trimmed_str_strip)

lemma trimmed_join: "trimmed a \<Longrightarrow> trimmed b \<Longrightarrow> trimmed (a @ CHR '' '' # b)"
  by (auto simp: trimmed_def)

lemma first_some_None: "(first_some f xs = None) = (\<forall>x \<in> set xs. f x = None)"
  by (induction xs) (auto split: option.splits)

lemma match_at_None: "(match_at ic r s i = None) = (rmatch ic r s (i, []) = [])"
  by (auto simp: match_at_def split: list.splits)

lemma re_search_None:
  "(re_search ic r s = None) = (\<forall>i \<le> length s. rmatch ic r s (i, []) = [])"
  by (auto simp: re_search_def re_search_from_def first_some_None match_at_None less_Suc_eq_le)

lemma is_space_LF: "is_space (CHR 0x0A)"
  by (simp add: is_space_def cp_def)

lemma punct_end_at:
  "(rmatch False punct_end s (i, []) \<noteq> []) =
     (i < length s \<and> s ! i \<in> set ''.!?;:'' \<and>
      (Suc i = length s \<or> (Suc (Suc i) = length s \<and> s ! Suc i = CHR 0x0A)))"
  by (auto simp: punct_end_def rseq_def)

lemma punct_end_search:
  assumes "trimmed b"
  shows "(re_search False punct_end b = None) = (last b \<notin> set ''.!?;:'')"
proof -
  from assms have ne: "b \<noteq> []" and l: "\<not> is_space (last b)" by (auto simp: trimmed_def)
  have lb: "last b = b ! (length b - 1)" using ne by (simp add: last_conv_nth)
  define P where "P i = (i < length b \<and> b ! i \<in> set ''.!?;:'' \<and>
      (Suc i = length b \<or> (Suc (Suc i) = length b \<and> b ! Suc i = CHR 0x0A)))" for i
  have at: "(rmatch False punct_end b (i, []) = []) = (\<not> P i)" for i
    using punct_end_at [of b i] unfolding P_def by blast
  have ex: "(\<exists>i. P i) = (last b \<in> set ''.!?;:'')"
  proof
    assume "\<exists>i. P i"
    then obtain i where i: "i < length b" "b ! i \<in> set ''.!?;:''"
      "Suc i = length b \<or> (Suc (Suc i) = length b \<and> b ! Suc i = CHR 0x0A)"
      unfolding P_def by blast
    from i(3) show "last b \<in> set ''.!?;:''"
    proof
      assume "Suc i = length b"
      then have "length b - 1 = i" by arith
      with i(2) lb show ?thesis by simp
    next
      assume a: "Suc (Suc i) = length b \<and> b ! Suc i = CHR 0x0A"
      then have "length b - 1 = Suc i" by arith
      with a lb have "last b = CHR 0x0A" by simp
      with l is_space_LF show ?thesis by simp
    qed
  next
    assume "last b \<in> set ''.!?;:''"
    with lb ne have "P (length b - 1)" unfolding P_def by simp
    then show "\<exists>i. P i" ..
  qed
  have bound: "P i \<Longrightarrow> i \<le> length b" for i unfolding P_def by simp
  have "(re_search False punct_end b = None) = (\<forall>i \<le> length b. \<not> P i)"
    by (simp only: re_search_None at)
  also have "\<dots> = (\<not> (\<exists>i. P i))" using bound by blast
  also have "\<dots> = (last b \<notin> set ''.!?;:'')" by (simp only: ex)
  finally show ?thesis .
qed

lemma merge_step_buffer_ok:
  "buffer_ok (snd st) \<Longrightarrow> buffer_ok (snd (merge_step st l))"
proof -
  assume ok: "buffer_ok (snd st)"
  obtain m b where st: "st = (m, b)" by (cases st)
  have "str_strip l = [] \<or> trimmed (str_strip l)" using trimmed_str_strip by blast
  with ok st show ?thesis
    by (auto simp: merge_step_def Let_def buffer_ok_def trimmed_join)
qed

lemma foldl_buffer_ok:
  "buffer_ok (snd st) \<Longrightarrow> buffer_ok (snd (foldl merge_step st ls))"
  by (induction ls arbitrary: st) (simp_all add: merge_step_buffer_ok)

lemma reachable_buffer:
  "foldl merge_step ([], []) pre = (merged, buffer) \<Longrightarrow> buffer \<noteq> [] \<Longrightarrow> trimmed buffer"
  using foldl_buffer_ok [of "([], [])" pre] by (simp add: buffer_ok_def)

lemma ordinary_step:
  assumes "foldl merge_step ([], []) pre = (merged, buffer)"
    and "str_strip l \<noteq> []"
    and "re_match True sec_pattern (str_strip l) = None"
    and "\<not> str_isupper (str_strip l)"
    and "buffer \<noteq> []"
  shows "merge_step (merged, buffer) l =
     (if last buffer \<in> set ''.!?;:'' then (merged @ [buffer], str_strip l)
      else (merged, buffer @ '' '' @ str_strip l))"
proof -
  have t: "trimmed buffer" using assms(1,5) by (rule reachable_buffer)
  have s: "str_strip buffer = buffer" using t by (rule str_strip_trimmed)
  have p: "(re_search False punct_end buffer = None) = (last buffer \<notin> set ''.!?;:'')"
    using t by (rule punct_end_search)
  show ?thesis
  proof (cases "last buffer \<in> set ''.!?;:''")
    case True
    with p have "re_search False punct_end buffer \<noteq> None" by blast
    with True assms(2-5) s show ?thesis by (simp add: merge_step_def Let_def)
  next
    case False
    with p have "re_search False punct_end buffer = None" by blast
    with False assms(2-5) show ?thesis by (simp add: merge_step_def Let_def)
  qed
qed

section \<open>Facts about the reflow loop\<close>

lemma merge_finish_prefix: "merge_finish (m @ m', b) = m @ merge_finish (m', b)"
  by (simp add: merge_finish_def)

lemma merge_step_prefix:
  "merge_step (m, b) l = (m @ fst (merge_step ([], b) l), snd (merge_step ([], b) l))"
  by (simp add: merge_step_def Let_def)

lemma foldl_merge_prefix:
  "foldl merge_step (m, b) ls =
     (m @ fst (foldl merge_step ([], b) ls), snd (foldl merge_step ([], b) ls))"
proof (induction ls arbitrary: m b)
  case Nil
  show ?case by simp
next
  case (Cons l ls)
  obtain m1 b1 where s1: "merge_step ([], b) l = (m1, b1)" by (cases "merge_step ([], b) l")
  have s2: "merge_step (m, b) l = (m @ m1, b1)"
    using merge_step_prefix [of m b l] s1 by simp
  have "foldl merge_step (m, b) (l # ls) = foldl merge_step (m @ m1, b1) ls"
    by (simp add: s2)
  also have "\<dots> = ((m @ m1) @ fst (foldl merge_step ([], b1) ls), snd (foldl merge_step ([], b1) ls))"
    by (rule Cons.IH)
  finally have a: "foldl merge_step (m, b) (l # ls) =
      (m @ m1 @ fst (foldl merge_step ([], b1) ls), snd (foldl merge_step ([], b1) ls))" by simp
  have "foldl merge_step ([], b) (l # ls) = foldl merge_step (m1, b1) ls" by (simp add: s1)
  also have "\<dots> = (m1 @ fst (foldl merge_step ([], b1) ls), snd (foldl merge_step ([], b1) ls))"
    by (rule Cons.IH)
  finally have b: "foldl merge_step ([], b) (l # ls) =
      (m1 @ fst (foldl merge_step ([], b1) ls), snd (foldl merge_step ([], b1) ls))" .
  show ?case by (simp only: a b fst_conv snd_conv)
qed

lemma hard_break_step:
  assumes "str_strip l \<noteq> []"
    and "re_match True sec_pattern (str_strip l) \<noteq> None \<or> str_isupper (str_strip l)"
  shows "merge_step (m, b) l = (merge_finish (m, b) @ [str_strip l], [])"
  using assms by (auto simp: merge_step_def merge_finish_def Let_def)

lemma merge_lines_hard_break:
  assumes "str_strip l \<noteq> []"
    and "re_match True sec_pattern (str_strip l) \<noteq> None \<or> str_isupper (str_strip l)"
  shows "merge_lines (pre @ l # post) = merge_lines pre @ [str_strip l] @ merge_lines post"
proof -
  obtain m b where pre: "foldl merge_step ([], []) pre = (m, b)"
    by (cases "foldl merge_step ([], []) pre")
  have mp: "merge_lines pre = merge_finish (m, b)" by (simp add: merge_lines_def pre)
  have "foldl merge_step ([], []) (pre @ l # post)
        = foldl merge_step (merge_step (m, b) l) post" by (simp add: pre)
  also have "\<dots> = foldl merge_step (merge_lines pre @ [str_strip l], []) post"
    by (simp only: hard_break_step [OF assms] mp)
  also have "\<dots> = ((merge_lines pre @ [str_strip l]) @ fst (foldl merge_step ([], []) post),
                      snd (foldl merge_step ([], []) post))"
    by (rule foldl_merge_prefix)
  finally have "merge_lines (pre @ l # post)
      = merge_finish ((merge_lines pre @ [str_strip l]) @ fst (foldl merge_step ([], []) post),
                      snd (foldl merge_step ([], []) post))"
    by (simp only: merge_lines_def)
  also have "\<dots> = (merge_lines pre @ [str_strip l]) @ merge_lines post"
    by (simp only: merge_finish_prefix merge_lines_def prod.collapse)
  finally show ?thesis by simp
qed

lemma punct_not_space: "c \<in> set ''.!?;:'' \<Longrightarrow> \<not> is_space c"
  by (auto simp: is_space_def cp_def)

lemma str_strip_last:
  assumes "l \<noteq> []" and "\<not> is_space (last l)"
  shows "str_strip l \<noteq> [] \<and> last (str_strip l) = last l"
proof -
  let ?t = "dropWhile is_space l"
  have "last l \<in> set l" using assms(1) by simp
  with assms(2) have t: "?t \<noteq> []" by (auto simp: dropWhile_eq_Nil_conv)
  then have lt: "last ?t = last l" by (rule last_dropWhile)
  have "rev ?t = rev (butlast ?t @ [last ?t])" using t by simp
  also have "\<dots> = last l # rev (butlast ?t)" by (simp add: lt)
  finally have r: "rev ?t = last l # rev (butlast ?t)" .
  have "dropWhile is_space (rev ?t) = rev ?t"
    by (simp only: r dropWhile.simps assms(2) if_False)
  then have "str_strip l = ?t" by (simp add: str_strip_def)
  with t lt show ?thesis by simp
qed

lemma sentence_step:
  assumes inv: "sentence_buffer b" and ne: "l \<noteq> []" and p: "last l \<in> set ''.!?;:''"
  shows "sentence_buffer (snd (merge_step (m, b) l)) \<and>
         merge_finish (merge_step (m, b) l) = merge_finish (m, b) @ [str_strip l]"
proof -
  have ns: "\<not> is_space (last l)" using p by (rule punct_not_space)
  from str_strip_last [OF ne ns] have sne: "str_strip l \<noteq> []"
    and sl: "last (str_strip l) = last l" by simp_all
  have st: "trimmed (str_strip l)" using sne by (rule trimmed_str_strip)
  have sb: "sentence_buffer (str_strip l)" using st sl p by (simp add: sentence_buffer_def)
  have ss: "str_strip (str_strip l) = str_strip l" by (rule str_strip_idem)
  show ?thesis
  proof (cases "re_match True sec_pattern (str_strip l) \<noteq> None \<or> str_isupper (str_strip l)")
    case True
    from hard_break_step [OF sne True] show ?thesis
      by (simp add: sentence_buffer_def merge_finish_def)
  next
    case False
    then have ord: "re_match True sec_pattern (str_strip l) = None" "\<not> str_isupper (str_strip l)"
      by blast+
    show ?thesis
    proof (cases "b = []")
      case True
      with sne ord sb ss show ?thesis by (simp add: merge_step_def Let_def merge_finish_def)
    next
      case False
      with inv have tb: "trimmed b" and pb: "last b \<in> set ''.!?;:''"
        by (simp_all add: sentence_buffer_def)
      from punct_end_search [OF tb] pb have "re_search False punct_end b \<noteq> None" by blast
      with False sne ord sb ss str_strip_trimmed [OF tb] show ?thesis
        by (simp add: merge_step_def Let_def merge_finish_def)
    qed
  qed
qed

lemma sentence_lines:
  assumes "sentence_buffer b" and "\<forall>l \<in> set ls. l \<noteq> [] \<and> last l \<in> set ''.!?;:''"
  shows "merge_finish (foldl merge_step (m, b) ls) = merge_finish (m, b) @ map str_strip ls"
  using assms
proof (induction ls arbitrary: m b)
  case Nil
  show ?case by simp
next
  case (Cons l ls)
  obtain m1 b1 where s1: "merge_step (m, b) l = (m1, b1)" by (cases "merge_step (m, b) l")
  from Cons.prems have l: "l \<noteq> []" "last l \<in> set ''.!?;:''" by simp_all
  from sentence_step [OF Cons.prems(1) l, of m] s1
  have i1: "sentence_buffer b1" and f1: "merge_finish (m1, b1) = merge_finish (m, b) @ [str_strip l]"
    by simp_all
  from Cons.prems have rest: "\<forall>l \<in> set ls. l \<noteq> [] \<and> last l \<in> set ''.!?;:''" by simp
  have "merge_finish (foldl merge_step (m, b) (l # ls)) = merge_finish (foldl merge_step (m1, b1) ls)"
    by (simp add: s1)
  also have "\<dots> = merge_finish (m1, b1) @ map str_strip ls"
    using i1 rest by (rule Cons.IH)
  finally show ?case by (simp add: f1)
qed

lemma merge_lines_sentences:
  assumes "\<forall>l \<in> set ls. l \<noteq> [] \<and> last l \<in> set ''.!?;:''"
  shows "merge_lines ls = map str_strip ls"
proof -
  have "sentence_buffer []" by (simp add: sentence_buffer_def)
  from sentence_lines [OF this assms, of "[]"] show ?thesis
    by (simp add: merge_lines_def merge_finish_def)
qed

lemma not_upper_without_cased:
  "list_all (\<lambda>c. \<not> is_upper_chr c \<and> \<not> is_lower_chr c) s \<Longrightarrow> \<not> str_isupper s"
  by (induction s) (auto simp: str_isupper_def)

section \<open>The reflow rules\<close>

text \<open>
  C2 (punctuation boundary). Whatever lines came before, an ordinary line (not blank,
  no section heading, not upper-case) that meets a non-empty buffer closes the buffer
  as a paragraph and starts the next one exactly when the buffer's last character is
  one of \<^verbatim>\<open>. ! ? ; :\<close>; otherwise it is appended to the buffer after one space.
  The two wrapped lines of the example give one paragraph, and lines that each end in
  such a character give one paragraph per line, in order (each line trimmed).
\<close>

theorem punctuation_boundary:
  "(\<forall>pre l merged buffer.
      foldl merge_step ([], []) pre = (merged, buffer) \<and> buffer \<noteq> [] \<and> str_strip l \<noteq> [] \<and>
      re_match True sec_pattern (str_strip l) = None \<and> \<not> str_isupper (str_strip l) \<longrightarrow>
      merge_step (merged, buffer) l =
        (if last buffer \<in> set ''.!?;:'' then (merged @ [buffer], str_strip l)
         else (merged, buffer @ '' '' @ str_strip l)))
   \<and> merge_lines [''The court finds'', ''that the claim is valid.'']
       = [''The court finds that the claim is valid.'']
   \<and> (\<forall>ls. (\<forall>l \<in> set ls. l \<noteq> [] \<and> last l \<in> set ''.!?;:'') \<longrightarrow>
          merge_lines ls = map str_strip ls)"
proof (intro conjI allI impI)
  fix pre l merged buffer
  assume "foldl merge_step ([], []) pre = (merged, buffer) \<and> buffer \<noteq> [] \<and> str_strip l \<noteq> [] \<and>
      re_match True sec_pattern (str_strip l) = None \<and> \<not> str_isupper (str_strip l)"
  then show "merge_step (merged, buffer) l =
        (if last buffer \<in> set ''.!?;:'' then (merged @ [buffer], str_strip l)
         else (merged, buffer @ '' '' @ str_strip l))"
    using ordinary_step [of pre merged buffer l] by blast
next
  show "merge_lines [''The court finds'', ''that the claim is valid.'']
       = [''The court finds that the claim is valid.'']"
    by code_simp
next
  fix ls
  assume "\<forall>l \<in> set ls. l \<noteq> [] \<and> last l \<in> set ''.!?;:''"
  then show "merge_lines ls = map str_strip ls" by (rule merge_lines_sentences)
qed

theorem punctuation_boundary_witness:
  "merge_step ([], ''The court finds'') ''that the claim is valid.''
     = ([], ''The court finds that the claim is valid.'')
   \<and> merge_step ([], ''It is so ordered.'') ''The clerk shall'' = ([''It is so ordered.''], ''The clerk shall'')
   \<and> merge_lines [''One.'', '' Two;'', ''three?''] = [''One.'', ''Two;'', ''three?'']"
proof -
  note step = punctuation_boundary [THEN conjunct1, rule_format]
  note sentences = punctuation_boundary [THEN conjunct2, THEN conjunct2, THEN spec, THEN mp]
  have h1: "foldl merge_step ([], []) [''The court finds''] = ([], ''The court finds'')
      \<and> ''The court finds'' \<noteq> [] \<and> str_strip ''that the claim is valid.'' \<noteq> []
      \<and> re_match True sec_pattern (str_strip ''that the claim is valid.'') = None
      \<and> \<not> str_isupper (str_strip ''that the claim is valid.'')"
    by code_simp
  have s1: "str_strip ''that the claim is valid.'' = ''that the claim is valid.''" by code_simp
  have 1: "merge_step ([], ''The court finds'') ''that the claim is valid.''
     = ([], ''The court finds that the claim is valid.'')"
    using step [OF h1] by (simp add: s1)
  have h2: "foldl merge_step ([], []) [''It is so ordered.''] = ([], ''It is so ordered.'')
      \<and> ''It is so ordered.'' \<noteq> [] \<and> str_strip ''The clerk shall'' \<noteq> []
      \<and> re_match True sec_pattern (str_strip ''The clerk shall'') = None
      \<and> \<not> str_isupper (str_strip ''The clerk shall'')"
    by code_simp
  have s2: "str_strip ''The clerk shall'' = ''The clerk shall''" by code_simp
  have 2: "merge_step ([], ''It is so ordered.'') ''The clerk shall'' = ([''It is so ordered.''], ''The clerk shall'')"
    using step [OF h2] by (simp add: s2)
  have h3: "\<forall>l \<in> set [''One.'', '' Two;'', ''three?'']. l \<noteq> [] \<and> last l \<in> set ''.!?;:''"
    by simp
  have s3: "map str_strip [''One.'', '' Two;'', ''three?''] = [''One.'', ''Two;'', ''three?'']"
    by code_simp
  have 3: "merge_lines [''One.'', '' Two;'', ''three?''] = [''One.'', ''Two;'', ''three?'']"
    using sentences [OF h3] by (simp only: s3)
  from 1 2 3 show ?thesis by blast
qed

text \<open>
  C3 (hard break). A line that is not blank and, once trimmed, matches the pattern of
  a numbered section heading or is upper-case closes the buffer, whatever its last
  character, and becomes a paragraph of its own: the paragraphs of the whole input are
  those of the lines before it, then the line, then those of the lines after it.
\<close>

theorem hard_break:
  "str_strip l \<noteq> [] \<Longrightarrow>
   re_match True sec_pattern (str_strip l) \<noteq> None \<or> str_isupper (str_strip l) \<Longrightarrow>
   merge_step (merged, buffer) l
     = ((if buffer \<noteq> [] then merged @ [str_strip buffer] else merged) @ [str_strip l], [])
   \<and> merge_lines (pre @ l # post) = merge_lines pre @ [str_strip l] @ merge_lines post"
proof -
  assume a: "str_strip l \<noteq> []"
    and b: "re_match True sec_pattern (str_strip l) \<noteq> None \<or> str_isupper (str_strip l)"
  have "merge_step (merged, buffer) l = (merge_finish (merged, buffer) @ [str_strip l], [])"
    using a b by (rule hard_break_step)
  moreover have "merge_lines (pre @ l # post) = merge_lines pre @ [str_strip l] @ merge_lines post"
    using a b by (rule merge_lines_hard_break)
  ultimately show ?thesis by (simp add: merge_finish_def)
qed

theorem hard_break_witness:
  "merge_step ([''a''], ''the claim, as filed'') (''2. Fundamenta'' @ [CHR 0xE7, CHR 0xE3] @ ''o '')
     = ([''a'', ''the claim, as filed'', ''2. Fundamenta'' @ [CHR 0xE7, CHR 0xE3] @ ''o''], [])
   \<and> merge_lines ([''the claim, as filed''] @ (''SENTEN'' @ [C_cedilla] @ ''A'') # [''of the court''])
     = [''the claim, as filed'', ''SENTEN'' @ [C_cedilla] @ ''A'', ''of the court'']"
proof -
  let ?h = "''2. Fundamenta'' @ [CHR 0xE7, CHR 0xE3] @ ''o ''"
  let ?u = "''SENTEN'' @ [C_cedilla] @ ''A''"
  have a1: "str_strip ?h \<noteq> []" by code_simp
  have b1: "re_match True sec_pattern (str_strip ?h) \<noteq> None \<or> str_isupper (str_strip ?h)"
    by code_simp
  have s1: "str_strip ?h = ''2. Fundamenta'' @ [CHR 0xE7, CHR 0xE3] @ ''o''" by code_simp
  have sb: "str_strip ''the claim, as filed'' = ''the claim, as filed''" by code_simp
  have 1: "merge_step ([''a''], ''the claim, as filed'') ?h
     = ([''a'', ''the claim, as filed'', ''2. Fundamenta'' @ [CHR 0xE7, CHR 0xE3] @ ''o''], [])"
    using hard_break [OF a1 b1, of "[''a'']" "''the claim, as filed''", THEN conjunct1] s1 sb
    by simp
  have a2: "str_strip ?u \<noteq> []" by code_simp
  have b2: "re_match True sec_pattern (str_strip ?u) \<noteq> None \<or> str_isupper (str_strip ?u)"
    by code_simp
  have s2: "str_strip ?u = ?u" by code_simp
  have m1: "merge_lines [''the claim, as filed''] = [''the claim, as filed'']" by code_simp
  have m2: "merge_lines [''of the court''] = [''of the court'']" by code_simp
  have 2: "merge_lines ([''the claim, as filed''] @ ?u # [''of the court''])
     = [''the claim, as filed'', ?u, ''of the court'']"
    using hard_break [OF a2 b2, of _ _ "[''the claim, as filed'']" "[''of the court'']", THEN conjunct2]
      s2 m1 m2
    by simp
  from 1 2 show ?thesis by blast
qed

text \<open>
  C10 (upper-case needs a cased character). A line that is not blank and whose trimmed
  content has no cased character (neither upper-case nor lower-case) is not upper-case
  for \<^verbatim>\<open>str.isupper\<close>; unless it matches the pattern of a section heading it is an
  ordinary line: it seeds an empty buffer, and otherwise the buffer test on the
  punctuation decides whether it is appended. So \<^verbatim>\<open>123.\<close> after \<^verbatim>\<open>abc\<close> is merged.
\<close>

theorem uncased_line_is_ordinary:
  "str_strip l \<noteq> [] \<Longrightarrow>
   list_all (\<lambda>c. \<not> is_upper_chr c \<and> \<not> is_lower_chr c) (str_strip l) \<Longrightarrow>
   \<not> str_isupper (str_strip l)
   \<and> (re_match True sec_pattern (str_strip l) = None \<longrightarrow>
        merge_step (merged, buffer) l =
          (if buffer = [] then (merged, str_strip l)
           else if re_search False punct_end buffer \<noteq> None then (merged @ [str_strip buffer], str_strip l)
           else (merged, buffer @ '' '' @ str_strip l)))
   \<and> merge_lines [''abc'', ''123.''] = [''abc 123.'']"
proof -
  assume ne: "str_strip l \<noteq> []"
    and nc: "list_all (\<lambda>c. \<not> is_upper_chr c \<and> \<not> is_lower_chr c) (str_strip l)"
  have nu: "\<not> str_isupper (str_strip l)" using nc by (rule not_upper_without_cased)
  have ex: "merge_lines [''abc'', ''123.''] = [''abc 123.'']" by code_simp
  from ne nu ex show ?thesis by (simp add: merge_step_def Let_def)
qed

theorem uncased_line_is_ordinary_witness:
  "\<not> str_isupper ''123.'' \<and> merge_step ([], ''abc'') ''123.'' = ([], ''abc 123.'')"
proof -
  have a: "str_strip ''123.'' \<noteq> []" by code_simp
  have b: "list_all (\<lambda>c. \<not> is_upper_chr c \<and> \<not> is_lower_chr c) (str_strip ''123.'')" by code_simp
  have s: "str_strip ''123.'' = ''123.''" by code_simp
  have c: "re_match True sec_pattern (str_strip ''123.'') = None" by code_simp
  have d: "re_search False punct_end ''abc'' = None" by code_simp
  from uncased_line_is_ordinary [OF a b, of "[]" "''abc''"] c d show ?thesis
    by (simp add: s)
qed

section \<open>The pipeline\<close>

lemma read_pages_eq:
  "read_pages ps (a, c) =
     (a @ page_texts ps, c @ concat (map (\<lambda>t. clean_page_lines (splitlines t)) (page_texts ps)))"
proof (induction ps arbitrary: a c)
  case Nil
  show ?case by simp
next
  case (Cons p ps)
  show ?case
  proof (cases p)
    case (Extracts t)
    then show ?thesis by (simp add: Cons.IH Let_def)
  next
    case (ExtractRaises e)
    then show ?thesis by (simp add: Cons.IH)
  qed
qed

lemma page_texts_filter: "page_texts (filter extracted ps) = page_texts ps"
proof (induction ps)
  case Nil
  show ?case by simp
next
  case (Cons p ps)
  then show ?case by (cases p) simp_all
qed

lemma success_result:
  assumes "pages \<noteq> []"
  shows "extrair_info_pdf caminho (Opened pages) None =
     \<lparr>arquivo = path_name caminho,
      numeroProcesso = extrair_numero_processo (str_join [CHR 0x0A] (page_texts pages)) (path_name caminho),
      texto_completo_limpo = cleaned_text (page_texts pages),
      sucesso = True, erro = None\<rparr>"
  using assms
  by (simp add: extrair_info_pdf_def read_pages_eq cleaned_text_def Let_def)

lemma open_failure_result:
  "extrair_info_pdf caminho (OpenRaises e) fault =
     \<lparr>arquivo = path_name caminho, numeroProcesso = None, texto_completo_limpo = [],
      sucesso = False, erro = Some (''Erro ao abrir PDF: '' @ take 50 e)\<rparr>"
  by (simp add: extrair_info_pdf_def)


lemma fault_result:
  assumes "pages \<noteq> []"
  shows "extrair_info_pdf caminho (Opened pages) (Some e) =
     \<lparr>arquivo = path_name caminho, numeroProcesso = None, texto_completo_limpo = [],
      sucesso = False, erro = Some (''Erro ao processar PDF: '' @ e)\<rparr>"
  using assms
  by (simp add: extrair_info_pdf_def read_pages_eq)





text \<open>
  C6 (a page that fails is skipped). When the source opens with at least one page and
  nothing else fails, the result is a success whatever pages fail to extract: the
  cleaned text and the case number are computed from the texts of the pages that
  extracted, in order, and nothing of a failing page enters them. The result is the
  one of the same source without its failing pages, when one page at least extracted.
\<close>

theorem failing_pages_are_skipped:
  "pages \<noteq> [] \<Longrightarrow>
   sucesso (extrair_info_pdf caminho (Opened pages) None)
   \<and> erro (extrair_info_pdf caminho (Opened pages) None) = None
   \<and> texto_completo_limpo (extrair_info_pdf caminho (Opened pages) None)
       = cleaned_text (page_texts pages)
   \<and> (filter extracted pages \<noteq> [] \<longrightarrow>
        extrair_info_pdf caminho (Opened pages) None
        = extrair_info_pdf caminho (Opened (filter extracted pages)) None)"
proof -
  assume ne: "pages \<noteq> []"
  have "filter extracted pages \<noteq> [] \<Longrightarrow>
        extrair_info_pdf caminho (Opened pages) None
        = extrair_info_pdf caminho (Opened (filter extracted pages)) None"
    by (simp add: success_result ne page_texts_filter)
  then show ?thesis by (simp add: success_result ne)
qed

theorem failing_pages_are_skipped_witness:
  "sucesso (extrair_info_pdf ''d/three.pdf''
      (Opened [Extracts (Some ''First page.''), ExtractRaises ''bad page'', Extracts (Some ''Third page.'')]) None)
   \<and> texto_completo_limpo (extrair_info_pdf ''d/three.pdf''
      (Opened [Extracts (Some ''First page.''), ExtractRaises ''bad page'', Extracts (Some ''Third page.'')]) None)
     = ''First page.'' @ [CHR 0x0A, CHR 0x0A] @ ''Third page.''"
proof -
  let ?pages = "[Extracts (Some ''First page.''), ExtractRaises ''bad page'', Extracts (Some ''Third page.'')]"
  have ne: "?pages \<noteq> []" by simp
  have c: "cleaned_text (page_texts ?pages) = ''First page.'' @ [CHR 0x0A, CHR 0x0A] @ ''Third page.''"
    by code_simp
  note skipped = failing_pages_are_skipped [OF ne, of "''d/three.pdf''"]
  have 1: "sucesso (extrair_info_pdf ''d/three.pdf'' (Opened ?pages) None)"
    using skipped by (rule conjunct1)
  have 2: "texto_completo_limpo (extrair_info_pdf ''d/three.pdf'' (Opened ?pages) None)
      = cleaned_text (page_texts ?pages)"
    using skipped by blast
  from 1 2 c show ?thesis by simp
qed

text \<open>
  C7 (the resolver reads the raw text). On a success the case number is the resolver's
  answer on the texts of the pages as extracted, joined by a line feed, with the lines
  of headers and footers still in them. A page whose only line with the label is a
  header line still gives the number, although the cleaned text has lost that line.
\<close>

theorem resolver_reads_raw_text:
  "pages \<noteq> [] \<Longrightarrow>
   numeroProcesso (extrair_info_pdf caminho (Opened pages) None)
     = extrair_numero_processo (str_join [CHR 0x0A] (page_texts pages)) (path_name caminho)
   \<and> is_header_line (''Comarca de Sobral - Processo n'' @ [ord_masc] @ '': 0000498-37.2018.8.06.0127'')
   \<and> extrair_info_pdf ''d/x.pdf''
        (Opened [Extracts (Some (''Comarca de Sobral - Processo n'' @ [ord_masc]
                   @ '': 0000498-37.2018.8.06.0127'' @ [CHR 0x0A] @ ''The court finds.''))]) None
      = \<lparr>arquivo = ''x.pdf'', numeroProcesso = Some ''0000498-37.2018.8.06.0127'',
         texto_completo_limpo = ''The court finds.'', sucesso = True, erro = None\<rparr>"
proof -
  assume ne: "pages \<noteq> []"
  have 1: "numeroProcesso (extrair_info_pdf caminho (Opened pages) None)
     = extrair_numero_processo (str_join [CHR 0x0A] (page_texts pages)) (path_name caminho)"
    by (simp add: success_result ne)
  have 2: "is_header_line (''Comarca de Sobral - Processo n'' @ [ord_masc] @ '': 0000498-37.2018.8.06.0127'')"
    by code_simp
  have 3: "extrair_info_pdf ''d/x.pdf''
        (Opened [Extracts (Some (''Comarca de Sobral - Processo n'' @ [ord_masc]
                   @ '': 0000498-37.2018.8.06.0127'' @ [CHR 0x0A] @ ''The court finds.''))]) None
      = \<lparr>arquivo = ''x.pdf'', numeroProcesso = Some ''0000498-37.2018.8.06.0127'',
         texto_completo_limpo = ''The court finds.'', sucesso = True, erro = None\<rparr>"
    by code_simp
  from 1 2 3 show ?thesis by blast
qed

theorem resolver_reads_raw_text_witness:
  "numeroProcesso (extrair_info_pdf ''d/y.pdf''
      (Opened [Extracts (Some ''fls. 12''),
               Extracts (Some (''Vara 2 Processo n#: 1234567-89.2020.8.06.0001''))]) None)
   = Some ''1234567-89.2020.8.06.0001''"
proof -
  let ?pages = "[Extracts (Some ''fls. 12''),
               Extracts (Some (''Vara 2 Processo n#: 1234567-89.2020.8.06.0001''))]"
  have ne: "?pages \<noteq> []" by simp
  have c: "extrair_numero_processo (str_join [CHR 0x0A] (page_texts ?pages)) (path_name ''d/y.pdf'')
      = Some ''1234567-89.2020.8.06.0001''"
    by code_simp
  from resolver_reads_raw_text [OF ne, of "''d/y.pdf''", THEN conjunct1] c show ?thesis by simp
qed

text \<open>
  C4 (the message of the outer handler). An exception of the statements after the page
  loop gives a failure whose description is the prefix followed by the whole of
  \<^verbatim>\<open>str(e)\<close>: here all 60 characters of the message. The handler of a failing open,
  on the same message, keeps its first 50 characters.
\<close>

theorem outer_handler_keeps_whole_message:
  "extrair_info_pdf ''d/x.pdf'' (Opened [Extracts (Some ''text'')]) (Some (replicate 60 CHR ''x''))
     = \<lparr>arquivo = ''x.pdf'', numeroProcesso = None, texto_completo_limpo = [], sucesso = False,
        erro = Some (''Erro ao processar PDF: '' @ replicate 60 CHR ''x'')\<rparr>
   \<and> extrair_info_pdf ''d/x.pdf'' (OpenRaises (replicate 60 CHR ''x'')) None
     = \<lparr>arquivo = ''x.pdf'', numeroProcesso = None, texto_completo_limpo = [], sucesso = False,
        erro = Some (''Erro ao abrir PDF: '' @ replicate 50 CHR ''x'')\<rparr>"
proof -
  have n: "path_name ''d/x.pdf'' = ''x.pdf''" by code_simp
  have t: "take 50 (replicate 60 CHR ''x'') = replicate 50 CHR ''x''" by simp
  show ?thesis by (simp only: fault_result open_failure_result n t list.distinct not_False_eq_True simp_thms)
qed

section \<open>Facts about the matcher\<close>

lemma cp_char_of: "n < 256 \<Longrightarrow> cp (char_of n) = n"
  by (simp add: cp_def)

lemma py_lower_cp: "cp (py_lower c) = (if is_upper_chr c then cp c + 32 else cp c)"
  by (auto simp: py_lower_def is_upper_chr_def cp_def)

lemma cp_inject: "(cp a = cp b) = (a = b)"
  by (auto simp: cp_def)

lemma is_space_py_lower: "is_space (py_lower c) = is_space c"
  unfolding is_space_def py_lower_cp by (auto simp: is_upper_chr_def)

lemma is_decimal_py_lower: "is_decimal (py_lower c) = is_decimal c"
  unfolding is_decimal_def py_lower_cp by (auto simp: is_upper_chr_def)

lemma concat_map_Nil: "(\<And>x. x \<in> set xs \<Longrightarrow> f x = []) \<Longrightarrow> concat (map f xs) = []"
  by (induction xs) simp_all

lemma run_nth:
  assumes "k < length (takeWhile P (drop i s))"
  shows "i + k < length s \<and> P (s ! (i + k))"
proof -
  have le: "length (takeWhile P (drop i s)) \<le> length s - i"
    using length_takeWhile_le [of P "drop i s"] by simp
  with assms have b: "i + k < length s" by arith
  have "takeWhile P (drop i s) ! k \<in> set (takeWhile P (drop i s))"
    using assms by (rule nth_mem)
  then have "P (takeWhile P (drop i s) ! k)" by (rule set_takeWhileD [THEN conjunct2])
  moreover have "takeWhile P (drop i s) ! k = drop i s ! k" using assms by (rule takeWhile_nth)
  moreover have "drop i s ! k = s ! (i + k)" using b by simp
  ultimately show ?thesis using b by simp
qed

lemma run_stop:
  assumes "i + length (takeWhile P (drop i s)) < length s"
  shows "\<not> P (s ! (i + length (takeWhile P (drop i s))))"
proof -
  from assms have "length (takeWhile P (drop i s)) < length (drop i s)" by simp
  then have "\<not> P (drop i s ! length (takeWhile P (drop i s)))" by (rule nth_length_takeWhile)
  moreover have "drop i s ! length (takeWhile P (drop i s)) = s ! (i + length (takeWhile P (drop i s)))"
    using assms by simp
  ultimately show ?thesis by simp
qed

lemma rmatch_Cat_assoc:
  "rmatch ic (Cat (Cat a b) c) s st = rmatch ic (Cat a (Cat b c)) s st"
proof -
  obtain i g where st: "st = (i, g)" by (cases st)
  have "concat (map (rmatch ic c s) (concat (map (rmatch ic b s) xs)))
        = concat (map (\<lambda>x. concat (map (rmatch ic c s) (rmatch ic b s x))) xs)" for xs
    by (induction xs) simp_all
  moreover have "rmatch ic (Cat b c) s = (\<lambda>x. concat (map (rmatch ic c s) (rmatch ic b s x)))"
  proof
    fix x show "rmatch ic (Cat b c) s x = concat (map (rmatch ic c s) (rmatch ic b s x))"
      by (cases x) simp
  qed
  ultimately show ?thesis by (simp add: st)
qed

lemma rmatch_Cat_Eps: "rmatch ic (Cat Eps r) s st = rmatch ic r s st"
  by (cases st) simp

lemma lits_Nil: "lits [] = Eps"
  by (simp add: lits_def rseq_def)

lemma lits_Cons: "lits (c # w) = Cat (Chr (Lit c)) (lits w)"
  by (simp add: lits_def rseq_def)

lemma rmatch_lits_Cons:
  "rmatch ic (Cat (lits (c # w)) r) s st = rmatch ic (Cat (Chr (Lit c)) (Cat (lits w) r)) s st"
  by (simp only: lits_Cons rmatch_Cat_assoc)

lemma rmatch_lits_Nil: "rmatch ic (Cat (lits []) r) s st = rmatch ic r s st"
  by (simp only: lits_Nil rmatch_Cat_Eps)

lemma rmatch_chr_cat:
  "rmatch ic (Cat (Chr c) r) s (i, g) =
     (if i < length s \<and> cset_match ic c (s ! i) then rmatch ic r s (Suc i, g) else [])"
  by auto

text \<open>A run of literals matches exactly the text of the same length that agrees with it
  character by character.\<close>

lemma rmatch_lits:
  "i \<le> length s \<Longrightarrow>
   rmatch ic (Cat (lits w) r) s (i, g) =
     (if i + length w \<le> length s \<and> (\<forall>k < length w. cset_match ic (Lit (w ! k)) (s ! (i + k)))
      then rmatch ic r s (i + length w, g) else [])"
proof (induction w arbitrary: i)
  case Nil
  then show ?case by (simp add: rmatch_lits_Nil del: rmatch.simps)
next
  case (Cons c w)
  have all_Suc: "(\<forall>k < Suc (length w). Q k) = (Q 0 \<and> (\<forall>k < length w. Q (Suc k)))" for Q
    by (auto simp: less_Suc_eq_0_disj)
  have step: "rmatch ic (Cat (lits (c # w)) r) s (i, g)
        = (if i < length s \<and> cset_match ic (Lit c) (s ! i)
           then rmatch ic (Cat (lits w) r) s (Suc i, g) else [])"
    by (simp only: rmatch_lits_Cons rmatch_chr_cat)
  show ?case
  proof (cases "i < length s \<and> cset_match ic (Lit c) (s ! i)")
    case True
    then have "Suc i \<le> length s" by simp
    from Cons.IH [OF this] True step show ?thesis
      by (auto simp: all_Suc simp del: cset_match.simps rmatch.simps)
  next
    case False
    have e: "rmatch ic (Cat (lits (c # w)) r) s (i, g) = []"
      by (simp only: step False if_False)
    from False have n: "\<not> (i + length (c # w) \<le> length s
        \<and> (\<forall>k < length (c # w). cset_match ic (Lit ((c # w) ! k)) (s ! (i + k))))"
      by (auto simp del: cset_match.simps)
    show ?thesis by (simp only: e n if_False)
  qed
qed

text \<open>A greedy repetition of a class followed by a character outside the class has one
  way to match: the whole run.\<close>

lemma rmatch_rep_chr:
  assumes disj: "\<And>x. cset_match ic cs x \<Longrightarrow> \<not> cset_match ic c x"
  shows "rmatch ic (Cat (Rep cs lo None) (Cat (Chr c) r)) s (i, g) =
     (if lo \<le> length (takeWhile (cset_match ic cs) (drop i s))
      then rmatch ic (Cat (Chr c) r) s (i + length (takeWhile (cset_match ic cs) (drop i s)), g)
      else [])"
proof -
  let ?n = "length (takeWhile (cset_match ic cs) (drop i s))"
  let ?f = "\<lambda>k. rmatch ic (Cat (Chr c) r) s (i + k, g)"
  have short: "?f k = []" if "k < ?n" for k
  proof -
    from run_nth [OF that] have "cset_match ic cs (s ! (i + k))" by simp
    then have "\<not> cset_match ic c (s ! (i + k))" by (rule disj)
    then show ?thesis by simp
  qed
  have eq: "rmatch ic (Cat (Rep cs lo None) (Cat (Chr c) r)) s (i, g)
            = concat (map ?f (rev [lo..<Suc ?n]))"
    by (simp add: Let_def comp_def del: upt_Suc)
  show ?thesis
  proof (cases "lo \<le> ?n")
    case True
    then have "rev [lo..<Suc ?n] = ?n # rev [lo..<?n]" by simp
    then have "concat (map ?f (rev [lo..<Suc ?n])) = ?f ?n @ concat (map ?f (rev [lo..<?n]))"
      by (simp del: upt_Suc)
    also have "concat (map ?f (rev [lo..<?n])) = []"
    proof (rule concat_map_Nil)
      fix x assume "x \<in> set (rev [lo..<?n])"
      then have "x < ?n" by simp
      then show "?f x = []" by (rule short)
    qed
    finally show ?thesis using True eq by simp
  next
    case False
    then have "[lo..<Suc ?n] = []" by simp
    with False eq show ?thesis by (simp del: upt_Suc)
  qed
qed

lemma rmatch_rep_lits:
  assumes disj: "\<And>x. cset_match ic cs x \<Longrightarrow> \<not> cset_match ic (Lit c) x"
  shows "rmatch ic (Cat (Rep cs lo None) (Cat (lits (c # w)) r)) s (i, g) =
     (if lo \<le> length (takeWhile (cset_match ic cs) (drop i s))
      then rmatch ic (Cat (lits (c # w)) r) s (i + length (takeWhile (cset_match ic cs) (drop i s)), g)
      else [])"
proof -
  have f: "rmatch ic (Cat (lits (c # w)) r) s = rmatch ic (Cat (Chr (Lit c)) (Cat (lits w) r)) s"
    by (rule ext) (rule rmatch_lits_Cons)
  have a: "rmatch ic (Cat (Rep cs lo None) (Cat (lits (c # w)) r)) s (i, g)
      = rmatch ic (Cat (Rep cs lo None) (Cat (Chr (Lit c)) (Cat (lits w) r))) s (i, g)"
    by (simp only: rmatch.simps(7) f)
  show ?thesis
    by (simp only: a rmatch_rep_chr [of ic cs "Lit c", OF disj] rmatch_lits_Cons)
qed

lemma rmatch_Bol_pos: "0 < i \<Longrightarrow> rmatch ic (Cat Bol r) s (i, g) = []"
  by simp

lemma rmatch_Bol_0: "rmatch ic (Cat Bol r) s (0, g) = rmatch ic r s (0, g)"
  by simp

lemma re_search_Bol: "(re_search ic (Cat Bol r) s = None) = (rmatch ic r s (0, []) = [])"
proof -
  have "(\<forall>i \<le> length s. rmatch ic (Cat Bol r) s (i, []) = []) = (rmatch ic r s (0, []) = [])"
    by auto
  then show ?thesis by (simp only: re_search_None)
qed

section \<open>Header and footer patterns\<close>

lemma re_search_Bol_neq: "(re_search ic (Cat Bol r) s \<noteq> None) = (rmatch ic r s (0, []) \<noteq> [])"
  by (simp only: re_search_Bol)

lemma lits_lead1:
  assumes "rmatch True (Cat (lits w) r) s (i, g) \<noteq> []" and "i \<le> length s" and "w \<noteq> []"
  shows "i < length s \<and> py_lower (s ! i) = py_lower (w ! 0)"
proof -
  from assms(1) rmatch_lits [OF assms(2), of True w r g]
  have c: "i + length w \<le> length s \<and> (\<forall>k < length w. cset_match True (Lit (w ! k)) (s ! (i + k)))"
    by (simp del: rmatch.simps cset_match.simps split: if_splits)
  from assms(3) have "0 < length w" by simp
  with c have "cset_match True (Lit (w ! 0)) (s ! (i + 0))" by blast
  moreover from c \<open>0 < length w\<close> have "i < length s" by arith
  ultimately show ?thesis by simp
qed

lemma lits_lead2:
  assumes "rmatch True (Cat (lits w) r) s (0, g) \<noteq> []" and "2 \<le> length w"
  shows "lead2 s (py_lower (w ! 0)) (py_lower (w ! 1))"
proof -
  from assms(1) rmatch_lits [of 0 s True w r g]
  have c: "0 + length w \<le> length s \<and> (\<forall>k < length w. cset_match True (Lit (w ! k)) (s ! (0 + k)))"
    by (simp del: rmatch.simps cset_match.simps split: if_splits)
  from assms(2) have "0 < length w" "1 < length w" by linarith+
  with c have "cset_match True (Lit (w ! 0)) (s ! (0 + 0))" "cset_match True (Lit (w ! 1)) (s ! (0 + 1))"
    by blast+
  moreover from c assms(2) have "1 < length s" by arith
  ultimately show ?thesis by (simp add: lead2_def)
qed

lemma lower_letters:
  "py_lower CHR ''P'' = CHR ''p''" "py_lower CHR ''O'' = CHR ''o''" "py_lower CHR ''C'' = CHR ''c''"
  "py_lower CHR ''o'' = CHR ''o''" "py_lower CHR ''V'' = CHR ''v''" "py_lower CHR ''a'' = CHR ''a''"
  "py_lower CHR ''F'' = CHR ''f''" "py_lower o_acute = o_acute" "py_lower CHR ''T'' = CHR ''t''"
  "py_lower CHR ''e'' = CHR ''e''" "py_lower CHR ''E'' = CHR ''e''" "py_lower CHR ''m'' = CHR ''m''"
  "py_lower CHR ''s'' = CHR ''s''" "py_lower CHR ''D'' = CHR ''d''" "py_lower CHR ''f'' = CHR ''f''"
  "py_lower CHR ''l'' = CHR ''l''"
  by code_simp+

lemma footer_leads:
  assumes "is_footer_line l"
  shows "lead2 (str_strip l) CHR ''e'' CHR ''s'' \<or> lead2 (str_strip l) CHR ''p'' CHR ''a''
       \<or> lead2 (str_strip l) CHR ''d'' CHR ''o'' \<or> lead2 (str_strip l) CHR ''f'' CHR ''l''"
proof -
  let ?s = "str_strip l"
  let ?w0 = "''Este documento '' @ [e_acute] @ '' c'' @ [o_acute] @ ''pia do original''"
  let ?w2 = "''Documento eletr'' @ [o_circ] @ ''nico assinado por''"
  from assms have
    "rmatch True (Cat (lits ?w0) Eps) ?s (0, []) \<noteq> []
     \<or> rmatch True (Cat (lits ''Para conferir o original'') Eps) ?s (0, []) \<noteq> []
     \<or> rmatch True (Cat (lits ?w2) Eps) ?s (0, []) \<noteq> []
     \<or> rmatch True (Cat (lits ''fls'') (Cat (Chr (Lit CHR ''.'')) (Cat (Rep Space 0 None)
          (Cat (Rep Digit 1 None) Eps)))) ?s (0, []) \<noteq> []"
    by (simp add: is_footer_line_def Let_def FOOTER_PATTERNS_def rseq_def re_search_Bol_neq
          del: rmatch.simps not_None_eq split: if_splits)
  then show ?thesis
  proof (elim disjE)
    assume "rmatch True (Cat (lits ?w0) Eps) ?s (0, []) \<noteq> []"
    from lits_lead2 [OF this] show ?thesis by (simp add: lower_letters)
  next
    assume "rmatch True (Cat (lits ''Para conferir o original'') Eps) ?s (0, []) \<noteq> []"
    from lits_lead2 [OF this] show ?thesis by (simp add: lower_letters)
  next
    assume "rmatch True (Cat (lits ?w2) Eps) ?s (0, []) \<noteq> []"
    from lits_lead2 [OF this] show ?thesis by (simp add: lower_letters)
  next
    assume "rmatch True (Cat (lits ''fls'') (Cat (Chr (Lit CHR ''.'')) (Cat (Rep Space 0 None)
          (Cat (Rep Digit 1 None) Eps)))) ?s (0, []) \<noteq> []"
    from lits_lead2 [OF this] show ?thesis by (simp add: lower_letters)
  qed
qed

lemma space_not_letter:
  "cset_match True Space x \<Longrightarrow> \<not> cset_match True (Lit CHR ''T'') x"
  "cset_match True Space x \<Longrightarrow> \<not> cset_match True (Lit CHR ''E'') x"
proof -
  have t: "\<not> is_space CHR ''t''" and e: "\<not> is_space CHR ''e''" by code_simp+
  show "cset_match True Space x \<Longrightarrow> \<not> cset_match True (Lit CHR ''T'') x"
    using is_space_py_lower [of x] t by (auto simp: lower_letters)
  show "cset_match True Space x \<Longrightarrow> \<not> cset_match True (Lit CHR ''E'') x"
    using is_space_py_lower [of x] e by (auto simp: lower_letters)
qed

lemma no_leading_space:
  assumes "trimmed s"
  shows "takeWhile (cset_match True Space) (drop 0 s) = []"
proof -
  from assms obtain c cs where "s = c # cs" "\<not> is_space c"
    by (cases s) (auto simp: trimmed_def)
  then show ?thesis by simp
qed

lemma header_leads:
  assumes "trimmed s" and "i < length HEADER_PATTERNS" and "i \<noteq> 4"
    and "re_search True (HEADER_PATTERNS ! i) s \<noteq> None"
  shows "lead2 s CHR ''p'' CHR ''o'' \<or> lead2 s CHR ''c'' CHR ''o'' \<or> lead2 s CHR ''v'' CHR ''a''
       \<or> lead2 s CHR ''f'' CHR ''o'' \<or> lead2 s CHR ''f'' o_acute
       \<or> lead2 s CHR ''t'' CHR ''e'' \<or> lead2 s CHR ''e'' CHR ''m''"
proof -
  have len: "length HEADER_PATTERNS = 7" by (simp add: HEADER_PATTERNS_def)
  with assms(2,3) consider "i = 0" | "i = 1" | "i = 2" | "i = 3" | "i = 5" | "i = 6" by arith
  then show ?thesis
  proof cases
    case 1
    with assms(4) have "rmatch True (Cat (lits ''PODER JUDICI'')
        (Cat (Chr (OneOf [A_acute, CHR ''A''])) (Cat (lits ''RIO'') Eps))) s (0, []) \<noteq> []"
      by (simp add: HEADER_PATTERNS_def rseq_def re_search_Bol_neq del: rmatch.simps not_None_eq)
    from lits_lead2 [OF this] show ?thesis by (simp add: lower_letters)
  next
    case 2
    with assms(4) have "rmatch True (Cat (lits ''Comarca de'') Eps) s (0, []) \<noteq> []"
      by (simp add: HEADER_PATTERNS_def rseq_def re_search_Bol_neq del: rmatch.simps not_None_eq)
    from lits_lead2 [OF this] show ?thesis by (simp add: lower_letters)
  next
    case 3
    with assms(4) have "rmatch True (Cat (lits ''Vara '') Eps) s (0, []) \<noteq> []"
      by (simp add: HEADER_PATTERNS_def rseq_def re_search_Bol_neq del: rmatch.simps not_None_eq)
    from lits_lead2 [OF this] show ?thesis by (simp add: lower_letters)
  next
    case 4
    with assms(4) have m: "rmatch True (Cat (lits ''F'')
        (Cat (Chr (OneOf [CHR ''o'', o_acute])) (Cat (lits ''rum'') Eps))) s (0, []) \<noteq> []"
      by (simp add: HEADER_PATTERNS_def rseq_def re_search_Bol_neq del: rmatch.simps not_None_eq)
    from lits_lead1 [OF m] have f: "0 < length s" "py_lower (s ! 0) = CHR ''f''"
      by (simp_all add: lower_letters)
    from m rmatch_lits [of 0 s True "''F''"] have
      "rmatch True (Cat (Chr (OneOf [CHR ''o'', o_acute])) (Cat (lits ''rum'') Eps)) s (1, []) \<noteq> []"
      by (simp del: rmatch.simps cset_match.simps split: if_splits)
    then have "1 < length s \<and> cset_match True (OneOf [CHR ''o'', o_acute]) (s ! 1)"
      by (simp only: rmatch_chr_cat One_nat_def split: if_splits) simp
    with f show ?thesis by (auto simp: lead2_def lower_letters)
  next
    case 5
    with assms(4) have m: "rmatch True (Cat (Rep Space 0 None) (Cat (lits ''Tel'') Eps)) s (0, []) \<noteq> []"
      by (simp add: HEADER_PATTERNS_def rseq_def re_search_Bol_neq del: rmatch.simps not_None_eq)
    have r: "rmatch True (Cat (Rep Space 0 None) (Cat (lits ''Tel'') Eps)) s (0, [])
        = rmatch True (Cat (lits ''Tel'') Eps) s (0, [])"
      using rmatch_rep_lits [of True Space "CHR ''T''" 0 "''el''" Eps s 0 "[]", OF space_not_letter(1)]
      by (simp only: no_leading_space [OF assms(1)] list.size le0 if_True add_0_right)
    from m have "rmatch True (Cat (lits ''Tel'') Eps) s (0, []) \<noteq> []" unfolding r .
    from lits_lead2 [OF this] show ?thesis by (simp add: lower_letters)
  next
    case 6
    with assms(4) have m: "rmatch True (Cat (Rep Space 0 None) (Cat (lits ''Email'') Eps)) s (0, []) \<noteq> []"
      by (simp add: HEADER_PATTERNS_def rseq_def re_search_Bol_neq del: rmatch.simps not_None_eq)
    have r: "rmatch True (Cat (Rep Space 0 None) (Cat (lits ''Email'') Eps)) s (0, [])
        = rmatch True (Cat (lits ''Email'') Eps) s (0, [])"
      using rmatch_rep_lits [of True Space "CHR ''E''" 0 "''mail''" Eps s 0 "[]", OF space_not_letter(2)]
      by (simp only: no_leading_space [OF assms(1)] list.size le0 if_True add_0_right)
    from m have "rmatch True (Cat (lits ''Email'') Eps) s (0, []) \<noteq> []" unfolding r .
    from lits_lead2 [OF this] show ?thesis by (simp add: lower_letters)
  qed
qed

lemma footer_line_trimmed: "is_footer_line l \<Longrightarrow> trimmed (str_strip l)"
  by (rule trimmed_str_strip) (auto simp: is_footer_line_def Let_def split: if_splits)

lemma footer_excludes_anchored_header:
  assumes "is_footer_line l" and "i < length HEADER_PATTERNS" and "i \<noteq> 4"
  shows "re_search True (HEADER_PATTERNS ! i) (str_strip l) = None"
proof (rule ccontr)
  assume "re_search True (HEADER_PATTERNS ! i) (str_strip l) \<noteq> None"
  from header_leads [OF footer_line_trimmed [OF assms(1)] assms(2,3) this] footer_leads [OF assms(1)]
  show False by (auto simp: lead2_def)
qed

text \<open>
  C9 (header and footer patterns). As stated the claim fails: the postal-code pattern of
  the headers is not anchored, and the line \<^verbatim>\<open>fls. 1 CEP: 12345-678\<close> matches it and
  the page-number pattern of the footers.
\<close>

theorem header_and_footer_overlap:
  "is_header_line ''fls. 1 CEP: 12345-678'' \<and> is_footer_line ''fls. 1 CEP: 12345-678''"
  by code_simp

text \<open>
  C9, amended. A line that a footer pattern matches is matched by no header pattern that
  is anchored at the line start: the only header pattern that can match it is the fifth,
  the postal-code marker, which may match anywhere. So a footer line that is classified
  as header holds a postal code.
\<close>

theorem footer_meets_only_postal_code_header:
  "is_footer_line l \<Longrightarrow>
   (\<forall>i < length HEADER_PATTERNS. i \<noteq> 4 \<longrightarrow>
      re_search True (HEADER_PATTERNS ! i) (str_strip l) = None)
   \<and> (is_header_line l \<longrightarrow> re_search True (HEADER_PATTERNS ! 4) (str_strip l) \<noteq> None)
   \<and> HEADER_PATTERNS ! 4 = rseq [lits ''CEP:'', Rep Space 0 None, Rep Digit 5 (Some 5),
                                  Chr (Lit CHR ''-''), Rep Digit 3 (Some 3)]"
proof -
  assume f: "is_footer_line l"
  have 1: "\<forall>i < length HEADER_PATTERNS. i \<noteq> 4 \<longrightarrow>
      re_search True (HEADER_PATTERNS ! i) (str_strip l) = None"
    using footer_excludes_anchored_header [OF f] by blast
  have 2: "re_search True (HEADER_PATTERNS ! 4) (str_strip l) \<noteq> None" if h: "is_header_line l"
  proof -
    from h have "list_ex (\<lambda>r. re_search True r (str_strip l) \<noteq> None) HEADER_PATTERNS"
      by (simp add: is_header_line_def Let_def del: not_None_eq split: if_splits)
    then obtain r where r: "r \<in> set HEADER_PATTERNS" and m: "re_search True r (str_strip l) \<noteq> None"
      unfolding list_ex_iff by blast
    from r obtain i where i: "i < length HEADER_PATTERNS" and ri: "HEADER_PATTERNS ! i = r"
      unfolding in_set_conv_nth by blast
    from m have mi: "re_search True (HEADER_PATTERNS ! i) (str_strip l) \<noteq> None"
      unfolding ri .
    have "i = 4"
    proof (rule ccontr)
      assume "i \<noteq> 4"
      with 1 i have "re_search True (HEADER_PATTERNS ! i) (str_strip l) = None" by simp
      with mi show False ..
    qed
    with mi show ?thesis by simp
  qed
  have 3: "HEADER_PATTERNS ! 4 = rseq [lits ''CEP:'', Rep Space 0 None, Rep Digit 5 (Some 5),
                                  Chr (Lit CHR ''-''), Rep Digit 3 (Some 3)]"
    by (simp add: HEADER_PATTERNS_def)
  have hdr: "is_header_line l \<longrightarrow> re_search True (HEADER_PATTERNS ! 4) (str_strip l) \<noteq> None"
    using 2 by (rule impI)
  show ?thesis using 1 hdr 3 by (intro conjI)
qed

theorem footer_meets_only_postal_code_header_witness:
  "is_footer_line ''fls. 12''
   \<and> re_search True (HEADER_PATTERNS ! 3) (str_strip ''fls. 12'') = None
   \<and> re_search True (HEADER_PATTERNS ! 4) (str_strip ''fls. 1 CEP: 12345-678'') \<noteq> None"
proof -
  have f1: "is_footer_line ''fls. 12''" by code_simp
  have f2: "is_footer_line ''fls. 1 CEP: 12345-678''" by code_simp
  have h2: "is_header_line ''fls. 1 CEP: 12345-678''" by code_simp
  have len: "3 < length HEADER_PATTERNS" by (simp add: HEADER_PATTERNS_def)
  from footer_meets_only_postal_code_header [OF f1] len
  have a: "re_search True (HEADER_PATTERNS ! 3) (str_strip ''fls. 12'') = None" by auto
  from footer_meets_only_postal_code_header [OF f2] h2
  have b: "re_search True (HEADER_PATTERNS ! 4) (str_strip ''fls. 1 CEP: 12345-678'') \<noteq> None"
    by blast
  from f1 a b show ?thesis by blast
qed

section \<open>Section headings\<close>

lemma rmatch_mono: "(j, g') \<in> set (rmatch ic r s (i, g)) \<Longrightarrow> i \<le> j"
proof (induction r arbitrary: i g j g')
  case (Cat a b)
  then show ?case by fastforce
qed (auto simp: Let_def split: if_splits option.splits)

lemma re_search_from_Bol: "0 < p \<Longrightarrow> re_search_from ic (Cat Bol r) s p = None"
  by (auto simp: re_search_from_def first_some_None match_at_None)

lemma match_at_adv_Bol: "0 < i \<Longrightarrow> match_at_adv ic (Cat Bol r) s i adv = None"
  by (simp add: match_at_adv_def)

lemma search_adv_Bol_pos: "0 < i \<Longrightarrow> search_adv ic (Cat Bol r) s i adv = None"
  by (simp add: search_adv_def match_at_adv_Bol re_search_from_Bol)

lemma search_adv_Bol_0:
  "search_adv ic (Cat Bol r) s 0 False =
     (case rmatch ic r s (0, []) of [] \<Rightarrow> None | (j, g) # _ \<Rightarrow> Some (0, j, g))"
proof -
  have "filter (\<lambda>(j, g). \<not> (False \<and> j = 0)) xs = xs" for xs :: "(nat \<times> caps) list"
    by (induction xs) auto
  then show ?thesis
    by (simp add: search_adv_def match_at_adv_def re_search_from_Bol split: list.splits)
qed

lemma sub_anchored_none:
  assumes "rmatch ic r s (0, []) = []"
  shows "re_sub ic (Cat Bol r) repl s = s"
proof -
  have "search_adv ic (Cat Bol r) s 0 False = None"
    by (simp only: search_adv_Bol_0 assms list.case)
  then show ?thesis
    unfolding re_sub_def by (subst sub_from.simps) (simp del: sub_from.simps)
qed

lemma sub_anchored_some:
  assumes "rmatch ic r s (0, []) = (e, g) # rest" and "0 < e"
  shows "re_sub ic (Cat Bol r) repl s = repl @ drop e s"
proof -
  have 1: "search_adv ic (Cat Bol r) s 0 False = Some (0, e, g)"
    by (simp only: search_adv_Bol_0 assms(1) list.case prod.case)
  have 2: "search_adv ic (Cat Bol r) s e (e = 0) = None"
    using assms(2) by (rule search_adv_Bol_pos)
  have 3: "sub_from ic (Cat Bol r) repl s e (e = 0) = drop e s"
    by (subst sub_from.simps) (simp add: 2 del: sub_from.simps)
  show ?thesis
    unfolding re_sub_def by (subst sub_from.simps) (simp add: 1 3 del: sub_from.simps)
qed

lemma lower_dot: "py_lower CHR ''.'' = CHR ''.''"
  by code_simp

lemma py_lower_dot: "(py_lower x = CHR ''.'') = (x = CHR ''.'')"
proof
  assume "py_lower x = CHR ''.''"
  then have "cp (py_lower x) = 46" by (simp add: cp_def)
  then have "cp x = 46" unfolding py_lower_cp by (auto simp: is_upper_chr_def split: if_splits)
  then have "cp x = cp CHR ''.''" by (simp add: cp_def)
  then show "x = CHR ''.''" by (simp only: cp_inject)
next
  assume "x = CHR ''.''"
  then show "py_lower x = CHR ''.''" by (simp add: lower_dot)
qed

lemma digit_not_dot: "cset_match True Digit x \<Longrightarrow> \<not> cset_match True (Lit CHR ''.'') x"
proof -
  have "\<not> is_decimal CHR ''.''" by code_simp
  then show "cset_match True Digit x \<Longrightarrow> \<not> cset_match True (Lit CHR ''.'') x"
    by (auto simp: py_lower_dot lower_dot)
qed

lemma heading_prefix:
  assumes sp: "\<And>x. cset_match True Space x \<Longrightarrow> \<not> cset_match True (Lit c) x"
  shows "rmatch True (Cat (Rep Digit 1 None) (Cat (Chr (Lit CHR ''.'')) (Cat (Rep Space 0 None)
            (Cat (lits (c # w)) t)))) s (0, g) =
         (case heading_start s of None \<Rightarrow> []
          | Some q \<Rightarrow> rmatch True (Cat (lits (c # w)) t) s (q, g))"
proof -
  let ?n = "length (takeWhile (cset_match True Digit) (drop 0 s))"
  let ?rest = "Cat (Rep Space 0 None) (Cat (lits (c # w)) t)"
  have d: "cset_match True Digit = is_decimal" and e: "cset_match True Space = is_space"
    by (rule ext, simp)+
  have 1: "rmatch True (Cat (Rep Digit 1 None) (Cat (Chr (Lit CHR ''.'')) ?rest)) s (0, g) =
      (if 1 \<le> ?n then rmatch True (Cat (Chr (Lit CHR ''.'')) ?rest) s (0 + ?n, g) else [])"
    by (rule rmatch_rep_chr) (rule digit_not_dot)
  have 2: "rmatch True (Cat (Chr (Lit CHR ''.'')) ?rest) s (i, g) =
      (if i < length s \<and> s ! i = CHR ''.'' then rmatch True ?rest s (Suc i, g) else [])" for i
    by (simp only: rmatch_chr_cat cset_match.simps if_True lower_dot py_lower_dot)
  have 3: "rmatch True ?rest s (i, g) =
      rmatch True (Cat (lits (c # w)) t) s (i + length (takeWhile (cset_match True Space) (drop i s)), g)" for i
    using rmatch_rep_lits [of True Space c 0 w t s i g, OF sp] by (simp only: le0 if_True)
  show ?thesis
    by (simp only: 1 2 3 d e) (simp add: heading_start_def Let_def)
qed

lemma heading_start_bound: "heading_start s = Some q \<Longrightarrow> 2 \<le> q \<and> q \<le> length s"
proof -
  assume a: "heading_start s = Some q"
  let ?n = "length (takeWhile is_decimal s)"
  from a have n: "1 \<le> ?n" "?n < length s"
    and q: "q = Suc ?n + length (takeWhile is_space (drop (Suc ?n) s))"
    by (auto simp: heading_start_def Let_def split: if_splits)
  have "length (takeWhile is_space (drop (Suc ?n) s)) \<le> length s - Suc ?n"
    using length_takeWhile_le [of is_space "drop (Suc ?n) s"] by simp
  with n q show ?thesis by arith
qed

lemma heading_start_hash: "heading_start (CHR ''#'' # t) = None"
proof -
  have "\<not> is_decimal CHR ''#''" by code_simp
  then show ?thesis by (simp add: heading_start_def)
qed

lemma space_not_lit:
  assumes "\<not> is_space (py_lower c)"
  shows "cset_match True Space x \<Longrightarrow> \<not> cset_match True (Lit c) x"
  using assms is_space_py_lower [of x] by auto

lemma numbered_match:
  assumes "\<not> is_space (py_lower c)"
  shows "rmatch True (numbered c w t) s (0, g) =
     (case heading_start s of None \<Rightarrow> []
      | Some q \<Rightarrow> rmatch True (Cat (lits (c # w)) t) s (q, g))"
  unfolding numbered_def
  by (simp only: rmatch_Bol_0 heading_prefix [OF space_not_lit [OF assms]])

lemma numbered_letter:
  assumes c: "\<not> is_space (py_lower c)" and m: "rmatch True (numbered c w t) s (0, g) \<noteq> []"
  shows "\<exists>q. heading_start s = Some q \<and> q < length s \<and> py_lower (s ! q) = py_lower c"
proof -
  from m obtain q where q: "heading_start s = Some q"
    and r: "rmatch True (Cat (lits (c # w)) t) s (q, g) \<noteq> []"
    unfolding numbered_match [OF c] by (cases "heading_start s") simp_all
  from heading_start_bound [OF q] have "q \<le> length s" by simp
  from lits_lead1 [OF r this] have "q < length s \<and> py_lower (s ! q) = py_lower c" by simp
  with q show ?thesis by blast
qed

lemma numbered_exclusive:
  assumes "\<not> is_space (py_lower c)" and "\<not> is_space (py_lower c')"
    and "py_lower c \<noteq> py_lower c'"
    and "rmatch True (numbered c w t) s (0, g) \<noteq> []"
  shows "rmatch True (numbered c' w' t') s (0, g') = []"
proof (rule ccontr)
  assume "rmatch True (numbered c' w' t') s (0, g') \<noteq> []"
  from numbered_letter [OF assms(2) this] numbered_letter [OF assms(1,4)] assms(3)
  show False by auto
qed

lemma numbered_end:
  assumes c: "\<not> is_space (py_lower c)"
    and m: "(e, g') \<in> set (rmatch True (numbered c w t) s (0, g))"
  shows "2 \<le> e"
proof -
  from m obtain q where q: "heading_start s = Some q"
    and r: "(e, g') \<in> set (rmatch True (Cat (lits (c # w)) t) s (q, g))"
    unfolding numbered_match [OF c] by (cases "heading_start s") simp_all
  from rmatch_mono [OF r] heading_start_bound [OF q] show ?thesis by simp
qed

lemma numbered_hash:
  assumes "\<not> is_space (py_lower c)"
  shows "rmatch True (numbered c w t) (CHR ''#'' # u) (0, g) = []"
  by (simp only: numbered_match [OF assms] heading_start_hash option.case)

lemma sub_numbered_none:
  assumes "rmatch True (numbered c w t) s (0, []) = []"
  shows "re_sub True (numbered c w t) repl s = s"
proof -
  from assms have "rmatch True (Cat (Rep Digit 1 None) (Cat (Chr (Lit CHR ''.''))
      (Cat (Rep Space 0 None) (Cat (lits (c # w)) t)))) s (0, []) = []"
    unfolding numbered_def by (simp only: rmatch_Bol_0)
  then show ?thesis unfolding numbered_def by (rule sub_anchored_none)
qed

lemma sub_numbered_some:
  assumes c: "\<not> is_space (py_lower c)"
    and m: "rmatch True (numbered c w t) s (0, []) = (e, g) # rest"
  shows "re_sub True (numbered c w t) repl s = repl @ drop e s"
proof -
  have "(e, g) \<in> set (rmatch True (numbered c w t) s (0, []))" by (simp only: m list.set insertI1)
  from numbered_end [OF c this] have pos: "0 < e" by simp
  from m have "rmatch True (Cat (Rep Digit 1 None) (Cat (Chr (Lit CHR ''.''))
      (Cat (Rep Space 0 None) (Cat (lits (c # w)) t)))) s (0, []) = (e, g) # rest"
    unfolding numbered_def by (simp only: rmatch_Bol_0)
  then show ?thesis unfolding numbered_def using pos by (rule sub_anchored_some)
qed

lemma sub_numbered_hash:
  assumes "\<not> is_space (py_lower c)"
  shows "re_sub True (numbered c w t) repl (CHR ''#'' # u) = CHR ''#'' # u"
  by (rule sub_numbered_none) (rule numbered_hash [OF assms])

lemma headings_numbered:
  "relatorio_heading = numbered CHR ''R'' ''ELAT''
     (Cat (Chr (OneOf [O_acute, CHR ''O''])) (Cat (lits ''RIO'') (Cat WordB Eps)))"
  "fundamentacao_heading = numbered CHR ''F'' ''UNDAMENTA''
     (Cat (Chr (OneOf [C_cedilla, CHR ''C''])) (Cat (Chr (OneOf [A_tilde, CHR ''A'']))
        (Cat (lits ''O'') (Cat WordB Eps))))"
  "dispositivo_heading = numbered CHR ''D'' ''ISPOSITIVO'' (Cat WordB Eps)"
  by (simp_all add: relatorio_heading_def fundamentacao_heading_def dispositivo_heading_def
        rseq_def numbered_def)

lemma heading_letters:
  "\<not> is_space (py_lower CHR ''R'')" "\<not> is_space (py_lower CHR ''F'')"
  "\<not> is_space (py_lower CHR ''D'')"
  "py_lower CHR ''R'' \<noteq> py_lower CHR ''F''" "py_lower CHR ''R'' \<noteq> py_lower CHR ''D''"
  "py_lower CHR ''F'' \<noteq> py_lower CHR ''D''"
  by code_simp+

lemma re_match_None: "(re_match ic r s = None) = (rmatch ic r s (0, []) = [])"
  by (simp only: re_match_def match_at_None)

lemma re_match_Some:
  "re_match ic r s = Some (b, e, g) \<Longrightarrow> \<exists>rest. rmatch ic r s (0, []) = (e, g) # rest"
  by (auto simp: re_match_def match_at_def split: list.splits)

lemma normalize_paragraph_unfold:
  "normalize_paragraph p =
     re_sub True dispositivo_heading ''### DISPOSITIVO''
       (re_sub True fundamentacao_heading ''### FUNDAMENTACAO''
         (re_sub True relatorio_heading ''### RELATORIO'' p))"
  by (simp add: normalize_paragraph_def Let_def)

lemma sub_heading_hash:
  "re_sub True relatorio_heading repl (CHR ''#'' # u) = CHR ''#'' # u"
  "re_sub True fundamentacao_heading repl (CHR ''#'' # u) = CHR ''#'' # u"
  "re_sub True dispositivo_heading repl (CHR ''#'' # u) = CHR ''#'' # u"
  unfolding headings_numbered
  by (rule sub_numbered_hash, rule heading_letters)+

lemma sub_heading_none:
  "re_match True relatorio_heading p = None \<Longrightarrow> re_sub True relatorio_heading repl p = p"
  "re_match True fundamentacao_heading p = None \<Longrightarrow> re_sub True fundamentacao_heading repl p = p"
  "re_match True dispositivo_heading p = None \<Longrightarrow> re_sub True dispositivo_heading repl p = p"
  unfolding headings_numbered re_match_None
  by (rule sub_numbered_none, assumption)+

lemma sub_heading_some:
  "re_match True relatorio_heading p = Some (b, e, g) \<Longrightarrow>
     re_sub True relatorio_heading repl p = repl @ drop e p"
  "re_match True fundamentacao_heading p = Some (b, e, g) \<Longrightarrow>
     re_sub True fundamentacao_heading repl p = repl @ drop e p"
  "re_match True dispositivo_heading p = Some (b, e, g) \<Longrightarrow>
     re_sub True dispositivo_heading repl p = repl @ drop e p"
proof -
  show "re_match True relatorio_heading p = Some (b, e, g) \<Longrightarrow>
     re_sub True relatorio_heading repl p = repl @ drop e p"
    unfolding headings_numbered
    by (drule re_match_Some, erule exE, rule sub_numbered_some [OF heading_letters(1)])
  show "re_match True fundamentacao_heading p = Some (b, e, g) \<Longrightarrow>
     re_sub True fundamentacao_heading repl p = repl @ drop e p"
    unfolding headings_numbered
    by (drule re_match_Some, erule exE, rule sub_numbered_some [OF heading_letters(2)])
  show "re_match True dispositivo_heading p = Some (b, e, g) \<Longrightarrow>
     re_sub True dispositivo_heading repl p = repl @ drop e p"
    unfolding headings_numbered
    by (drule re_match_Some, erule exE, rule sub_numbered_some [OF heading_letters(3)])
qed

lemma heading_exclusive:
  "re_match True relatorio_heading p \<noteq> None \<Longrightarrow> re_match True fundamentacao_heading p = None"
  "re_match True relatorio_heading p \<noteq> None \<Longrightarrow> re_match True dispositivo_heading p = None"
  "re_match True fundamentacao_heading p \<noteq> None \<Longrightarrow> re_match True relatorio_heading p = None"
  "re_match True fundamentacao_heading p \<noteq> None \<Longrightarrow> re_match True dispositivo_heading p = None"
  "re_match True dispositivo_heading p \<noteq> None \<Longrightarrow> re_match True relatorio_heading p = None"
  "re_match True dispositivo_heading p \<noteq> None \<Longrightarrow> re_match True fundamentacao_heading p = None"
  unfolding headings_numbered re_match_None
  using heading_letters
  by (blast intro: numbered_exclusive dest: not_sym)+

lemma normalize_relatorio:
  assumes "re_match True relatorio_heading p = Some (b, e, g)"
  shows "normalize_paragraph p = ''### RELATORIO'' @ drop e p"
proof -
  have "re_sub True relatorio_heading ''### RELATORIO'' p = CHR ''#'' # (''## RELATORIO'' @ drop e p)"
    using sub_heading_some(1) [OF assms, of "''### RELATORIO''"] by simp
  then show ?thesis
    by (simp only: normalize_paragraph_unfold sub_heading_hash) simp
qed

lemma normalize_fundamentacao:
  assumes "re_match True fundamentacao_heading p = Some (b, e, g)"
  shows "normalize_paragraph p = ''### FUNDAMENTACAO'' @ drop e p"
proof -
  from assms have "re_match True fundamentacao_heading p \<noteq> None" by simp
  then have "re_match True relatorio_heading p = None" by (rule heading_exclusive)
  then have 1: "re_sub True relatorio_heading ''### RELATORIO'' p = p" by (rule sub_heading_none)
  have 2: "re_sub True fundamentacao_heading ''### FUNDAMENTACAO'' p
      = CHR ''#'' # (''## FUNDAMENTACAO'' @ drop e p)"
    using sub_heading_some(2) [OF assms, of "''### FUNDAMENTACAO''"] by simp
  show ?thesis
    by (simp only: normalize_paragraph_unfold 1 2 sub_heading_hash) simp
qed

lemma normalize_dispositivo:
  assumes "re_match True dispositivo_heading p = Some (b, e, g)"
  shows "normalize_paragraph p = ''### DISPOSITIVO'' @ drop e p"
proof -
  from assms have n: "re_match True dispositivo_heading p \<noteq> None" by simp
  from n have "re_match True relatorio_heading p = None" by (rule heading_exclusive)
  then have 1: "re_sub True relatorio_heading ''### RELATORIO'' p = p" by (rule sub_heading_none)
  from n have "re_match True fundamentacao_heading p = None" by (rule heading_exclusive)
  then have 2: "re_sub True fundamentacao_heading ''### FUNDAMENTACAO'' p = p"
    by (rule sub_heading_none)
  show ?thesis
    by (simp only: normalize_paragraph_unfold 1 2 sub_heading_some(3) [OF assms])
qed

lemma normalize_other:
  assumes "re_match True relatorio_heading p = None"
    and "re_match True fundamentacao_heading p = None"
    and "re_match True dispositivo_heading p = None"
  shows "normalize_paragraph p = p"
  by (simp only: normalize_paragraph_unfold sub_heading_none(1) [OF assms(1)]
        sub_heading_none(2) [OF assms(2)] sub_heading_none(3) [OF assms(3)])

lemma normalize_paragraphs_map: "normalize_paragraphs ps = map normalize_paragraph ps"
  by (induction ps) simp_all

lemma mem_lits:
  assumes "i \<le> length s" and "(e, g') \<in> set (rmatch ic (Cat (lits w) r) s (i, g))"
  shows "i + length w \<le> length s \<and> (e, g') \<in> set (rmatch ic r s (i + length w, g))"
  using assms(2) unfolding rmatch_lits [OF assms(1)]
  by (simp del: rmatch.simps cset_match.simps split: if_splits)

lemma mem_chr:
  assumes "(e, g') \<in> set (rmatch ic (Cat (Chr c) r) s (i, g))"
  shows "i < length s \<and> (e, g') \<in> set (rmatch ic r s (Suc i, g))"
  using assms unfolding rmatch_chr_cat
  by (simp del: rmatch.simps cset_match.simps split: if_splits)

lemma mem_wordb: "(e, g') \<in> set (rmatch ic (Cat WordB Eps) s (i, g)) \<Longrightarrow> e = i \<and> g' = g"
  by (simp split: if_splits)

lemma numbered_mem:
  assumes c: "\<not> is_space (py_lower c)"
    and m: "(e, g') \<in> set (rmatch True (numbered c w t) s (0, g))"
  shows "\<exists>q. heading_start s = Some q \<and> q \<le> length s
           \<and> (e, g') \<in> set (rmatch True (Cat (lits (c # w)) t) s (q, g))"
proof -
  from m obtain q where q: "heading_start s = Some q"
    and r: "(e, g') \<in> set (rmatch True (Cat (lits (c # w)) t) s (q, g))"
    unfolding numbered_match [OF c] by (cases "heading_start s") simp_all
  with heading_start_bound [OF q] show ?thesis by blast
qed

text \<open>Where a heading match ends: after the digits, the dot, the white space and the
  letters of the section name.\<close>

lemma heading_match_end:
  "re_match True relatorio_heading p = Some (b, e, g) \<Longrightarrow>
     b = 0 \<and> (\<exists>q. heading_start p = Some q \<and> e = q + 9)"
  "re_match True fundamentacao_heading p = Some (b, e, g) \<Longrightarrow>
     b = 0 \<and> (\<exists>q. heading_start p = Some q \<and> e = q + 13)"
  "re_match True dispositivo_heading p = Some (b, e, g) \<Longrightarrow>
     b = 0 \<and> (\<exists>q. heading_start p = Some q \<and> e = q + 11)"
proof -
  have start: "re_match True r p = Some (b, e, g) \<Longrightarrow> b = 0 \<and> (e, g) \<in> set (rmatch True r p (0, []))"
    for r by (auto simp: re_match_def match_at_def split: list.splits)
  {
    assume "re_match True relatorio_heading p = Some (b, e, g)"
    from start [OF this] have b: "b = 0" and m: "(e, g) \<in> set (rmatch True (numbered CHR ''R'' ''ELAT''
     (Cat (Chr (OneOf [O_acute, CHR ''O''])) (Cat (lits ''RIO'') (Cat WordB Eps)))) p (0, []))"
      by (simp_all only: headings_numbered)
    from numbered_mem [OF heading_letters(1) m] obtain q where q: "heading_start p = Some q"
      "q \<le> length p" and 1: "(e, g) \<in> set (rmatch True (Cat (lits ''RELAT'')
          (Cat (Chr (OneOf [O_acute, CHR ''O''])) (Cat (lits ''RIO'') (Cat WordB Eps)))) p (q, []))"
      by blast
    note 2 = mem_lits [OF q(2) 1, THEN conjunct2]
    note 3 = mem_chr [OF 2]
    from 3 have "Suc (q + length ''RELAT'') \<le> length p" by simp
    note 4 = mem_lits [OF this 3 [THEN conjunct2], THEN conjunct2]
    from mem_wordb [OF 4] have "e = q + 9" by simp
    with b q(1) show "b = 0 \<and> (\<exists>q. heading_start p = Some q \<and> e = q + 9)" by blast
  next
    assume "re_match True fundamentacao_heading p = Some (b, e, g)"
    from start [OF this] have b: "b = 0" and m: "(e, g) \<in> set (rmatch True (numbered CHR ''F'' ''UNDAMENTA''
     (Cat (Chr (OneOf [C_cedilla, CHR ''C''])) (Cat (Chr (OneOf [A_tilde, CHR ''A'']))
        (Cat (lits ''O'') (Cat WordB Eps))))) p (0, []))"
      by (simp_all only: headings_numbered)
    from numbered_mem [OF heading_letters(2) m] obtain q where q: "heading_start p = Some q"
      "q \<le> length p" and 1: "(e, g) \<in> set (rmatch True (Cat (lits ''FUNDAMENTA'')
          (Cat (Chr (OneOf [C_cedilla, CHR ''C''])) (Cat (Chr (OneOf [A_tilde, CHR ''A'']))
        (Cat (lits ''O'') (Cat WordB Eps))))) p (q, []))"
      by blast
    note 2 = mem_lits [OF q(2) 1, THEN conjunct2]
    note 3 = mem_chr [OF 2, THEN conjunct2]
    note 4 = mem_chr [OF 3]
    from 4 have "Suc (Suc (q + length ''FUNDAMENTA'')) \<le> length p" by simp
    note 5 = mem_lits [OF this 4 [THEN conjunct2], THEN conjunct2]
    from mem_wordb [OF 5] have "e = q + 13" by simp
    with b q(1) show "b = 0 \<and> (\<exists>q. heading_start p = Some q \<and> e = q + 13)" by blast
  next
    assume "re_match True dispositivo_heading p = Some (b, e, g)"
    from start [OF this] have b: "b = 0" and m: "(e, g) \<in> set (rmatch True
        (numbered CHR ''D'' ''ISPOSITIVO'' (Cat WordB Eps)) p (0, []))"
      by (simp_all only: headings_numbered)
    from numbered_mem [OF heading_letters(3) m] obtain q where q: "heading_start p = Some q"
      "q \<le> length p" and 1: "(e, g) \<in> set (rmatch True (Cat (lits ''DISPOSITIVO'')
          (Cat WordB Eps)) p (q, []))"
      by blast
    note 2 = mem_lits [OF q(2) 1, THEN conjunct2]
    from mem_wordb [OF 2] have "e = q + 11" by simp
    with b q(1) show "b = 0 \<and> (\<exists>q. heading_start p = Some q \<and> e = q + 11)" by blast
  }
qed


text \<open>
  C8 (section headings). \<^verbatim>\<open>normalize_paragraphs\<close> maps the paragraphs one by one, in
  order. A paragraph that one of the three heading patterns matches at its start becomes
  the markup heading with the unaccented name followed by the paragraph's text after the
  match, and neither of the other two patterns matches it. A paragraph that none of the
  patterns matches is returned as it is.
\<close>

theorem section_normalizer:
  "length (normalize_paragraphs ps) = length ps
   \<and> (\<forall>i < length ps. normalize_paragraphs ps ! i = normalize_paragraph (ps ! i))
   \<and> (re_match True relatorio_heading p = Some (b, e, g) \<longrightarrow>
        normalize_paragraph p = ''### RELATORIO'' @ drop e p
        \<and> re_match True fundamentacao_heading p = None
        \<and> re_match True dispositivo_heading p = None)
   \<and> (re_match True fundamentacao_heading p = Some (b, e, g) \<longrightarrow>
        normalize_paragraph p = ''### FUNDAMENTACAO'' @ drop e p
        \<and> re_match True relatorio_heading p = None
        \<and> re_match True dispositivo_heading p = None)
   \<and> (re_match True dispositivo_heading p = Some (b, e, g) \<longrightarrow>
        normalize_paragraph p = ''### DISPOSITIVO'' @ drop e p
        \<and> re_match True relatorio_heading p = None
        \<and> re_match True fundamentacao_heading p = None)
   \<and> (re_match True relatorio_heading p = None \<and> re_match True fundamentacao_heading p = None
        \<and> re_match True dispositivo_heading p = None \<longrightarrow>
        normalize_paragraph p = p)"
proof (intro conjI impI allI)
  show "length (normalize_paragraphs ps) = length ps"
    by (simp add: normalize_paragraphs_map)
next
  fix i assume "i < length ps"
  then show "normalize_paragraphs ps ! i = normalize_paragraph (ps ! i)"
    by (simp add: normalize_paragraphs_map)
next
  assume m: "re_match True relatorio_heading p = Some (b, e, g)"
  then show "normalize_paragraph p = ''### RELATORIO'' @ drop e p" by (rule normalize_relatorio)
  from m have n: "re_match True relatorio_heading p \<noteq> None" by simp
  from n show "re_match True fundamentacao_heading p = None" by (rule heading_exclusive)
  from n show "re_match True dispositivo_heading p = None" by (rule heading_exclusive)
next
  assume m: "re_match True fundamentacao_heading p = Some (b, e, g)"
  then show "normalize_paragraph p = ''### FUNDAMENTACAO'' @ drop e p"
    by (rule normalize_fundamentacao)
  from m have n: "re_match True fundamentacao_heading p \<noteq> None" by simp
  from n show "re_match True relatorio_heading p = None" by (rule heading_exclusive)
  from n show "re_match True dispositivo_heading p = None" by (rule heading_exclusive)
next
  assume m: "re_match True dispositivo_heading p = Some (b, e, g)"
  then show "normalize_paragraph p = ''### DISPOSITIVO'' @ drop e p"
    by (rule normalize_dispositivo)
  from m have n: "re_match True dispositivo_heading p \<noteq> None" by simp
  from n show "re_match True relatorio_heading p = None" by (rule heading_exclusive)
  from n show "re_match True fundamentacao_heading p = None" by (rule heading_exclusive)
next
  assume "re_match True relatorio_heading p = None \<and> re_match True fundamentacao_heading p = None
        \<and> re_match True dispositivo_heading p = None"
  then show "normalize_paragraph p = p" by (blast intro: normalize_other)
qed

theorem section_normalizer_witness:
  "normalize_paragraph (''2.  fundamenta'' @ [CHR 0xE7, CHR 0xE3] @ ''o do pedido'')
     = ''### FUNDAMENTACAO do pedido''
   \<and> normalize_paragraph ''The court finds.'' = ''The court finds.''
   \<and> length (normalize_paragraphs [''1. RELATORIO'', ''The court finds.'']) = 2"
proof -
  let ?p = "''2.  fundamenta'' @ [CHR 0xE7, CHR 0xE3] @ ''o do pedido''"
  let ?q = "''The court finds.''"
  note fund = section_normalizer [of "[''1. RELATORIO'', ?q]" ?p 0 17 "[]",
      THEN conjunct2, THEN conjunct2, THEN conjunct2, THEN conjunct1, THEN mp, THEN conjunct1]
  note other = section_normalizer [of "[''1. RELATORIO'', ?q]" ?q 0 0 "[]",
      THEN conjunct2, THEN conjunct2, THEN conjunct2, THEN conjunct2, THEN conjunct2, THEN mp]
  note len = section_normalizer [of "[''1. RELATORIO'', ?q]" ?q 0 0 "[]", THEN conjunct1]
  have m: "re_match True fundamentacao_heading ?p = Some (0, 17, [])" by code_simp
  have d: "''### FUNDAMENTACAO'' @ drop 17 ?p = ''### FUNDAMENTACAO do pedido''" by simp
  have 1: "normalize_paragraph ?p = ''### FUNDAMENTACAO do pedido''"
    using fund [OF m] by (simp only: d)
  have n: "re_match True relatorio_heading ?q = None \<and> re_match True fundamentacao_heading ?q = None
        \<and> re_match True dispositivo_heading ?q = None"
    by code_simp
  have 2: "normalize_paragraph ?q = ?q" using n by (rule other)
  have 3: "length (normalize_paragraphs [''1. RELATORIO'', ?q]) = 2"
    using len by simp
  from 1 2 3 show ?thesis by (intro conjI)
qed

section \<open>The case number\<close>

lemma first_some_Some: "first_some f xs = Some y \<Longrightarrow> \<exists>x \<in> set xs. f x = Some y"
  by (induction xs) (auto split: option.splits)

lemma re_search_Some:
  assumes "re_search ic r s = Some (b, e, g)"
  shows "b \<le> length s \<and> (e, g) \<in> set (rmatch ic r s (b, []))"
proof -
  from assms obtain x where x: "x \<in> set [0..<Suc (length s)]" "match_at ic r s x = Some (b, e, g)"
    unfolding re_search_def re_search_from_def by (blast dest: first_some_Some)
  from x(2) have "x = b" "(e, g) \<in> set (rmatch ic r s (x, []))"
    by (auto simp: match_at_def split: list.splits)
  with x(1) show ?thesis by auto
qed

lemma py_lower_uncased:
  assumes "\<not> is_upper_chr c" and "\<not> is_lower_chr c"
  shows "(py_lower x = py_lower c) = (x = c)"
proof -
  have c: "py_lower c = c" using assms(1) by (simp add: py_lower_def)
  show ?thesis
  proof (cases "is_upper_chr x")
    case True
    then have "is_lower_chr (py_lower x)"
      unfolding is_lower_chr_def py_lower_cp by (auto simp: is_upper_chr_def)
    with assms(2) True assms(1) show ?thesis by (auto simp: c)
  next
    case False
    then have "py_lower x = x" by (simp add: py_lower_def)
    then show ?thesis by (simp only: c)
  qed
qed

lemma mem_chr_match:
  assumes "(e, g') \<in> set (rmatch ic (Cat (Chr c) r) s (i, g))"
  shows "i < length s \<and> cset_match ic c (s ! i) \<and> (e, g') \<in> set (rmatch ic r s (Suc i, g))"
  using assms unfolding rmatch_chr_cat
  by (simp del: rmatch.simps cset_match.simps split: if_splits)

lemma mem_rep:
  assumes "(e, g') \<in> set (rmatch ic (Cat (Rep cs lo None) r) s (i, g))"
  shows "\<exists>k. lo \<le> k \<and> k \<le> length (takeWhile (cset_match ic cs) (drop i s))
           \<and> (e, g') \<in> set (rmatch ic r s (i + k, g))"
  using assms by (auto simp: Let_def)

lemma mem_rep_exact:
  assumes "(e, g') \<in> set (rmatch ic (Cat (Rep cs k (Some k)) r) s (i, g))"
  shows "k \<le> length (takeWhile (cset_match ic cs) (drop i s))
           \<and> (e, g') \<in> set (rmatch ic r s (i + k, g))"
proof -
  from assms obtain j where j: "k \<le> j"
    "j \<le> min (length (takeWhile (cset_match ic cs) (drop i s))) k"
    "(e, g') \<in> set (rmatch ic r s (i + j, g))"
    by (auto simp: Let_def)
  from j(1,2) have "j = k" "k \<le> length (takeWhile (cset_match ic cs) (drop i s))" by simp_all
  with j(3) show ?thesis by simp
qed

lemma mem_grp:
  assumes "(e, g') \<in> set (rmatch ic (Cat (Grp n r) t) s (i, g))"
  shows "\<exists>j g''. (j, g'') \<in> set (rmatch ic r s (i, g))
           \<and> (e, g') \<in> set (rmatch ic t s (j, (n, i, j) # g''))"
  using assms by auto

lemma run_bound: "i \<le> length s \<Longrightarrow> i + length (takeWhile P (drop i s)) \<le> length s"
  using length_takeWhile_le [of P "drop i s"] by simp

lemma run_all:
  assumes "k \<le> length (takeWhile P (drop i s))"
  shows "i + k \<le> length s \<or> k = 0" and "\<forall>j < k. P (s ! (i + j))"
proof -
  show "\<forall>j < k. P (s ! (i + j))"
  proof (intro allI impI)
    fix j assume "j < k"
    with assms have "j < length (takeWhile P (drop i s))" by simp
    from run_nth [OF this] show "P (s ! (i + j))" by simp
  qed
  show "i + k \<le> length s \<or> k = 0"
  proof (cases k)
    case 0
    then show ?thesis by simp
  next
    case (Suc m)
    with assms have "m < length (takeWhile P (drop i s))" by simp
    from run_nth [OF this] Suc show ?thesis by simp
  qed
qed

lemma slice_append: "a \<le> m \<Longrightarrow> m \<le> j \<Longrightarrow> slice s a j = slice s a m @ slice s m j"
proof -
  assume am: "a \<le> m" and mj: "m \<le> j"
  then have "j - a = (m - a) + (j - m)" by simp
  then have "take (j - a) (drop a s) = take (m - a) (drop a s) @ take (j - m) (drop (m - a) (drop a s))"
    by (simp only: take_add)
  also have "drop (m - a) (drop a s) = drop m s" using am by simp
  finally show ?thesis by (simp only: slice_def)
qed

lemma slice_single: "a < length s \<Longrightarrow> slice s a (Suc a) = [s ! a]"
proof -
  assume "a < length s"
  then have "drop a s = s ! a # drop (Suc a) s" by (simp add: Cons_nth_drop_Suc)
  then show ?thesis by (simp add: slice_def)
qed

lemma slice_same: "slice s a a = []"
  by (simp add: slice_def)

lemma rseq_Nil: "rseq [] = Eps"
  by (simp add: rseq_def)

lemma rseq_Cons: "rseq (r # rs) = Cat r (rseq rs)"
  by (simp add: rseq_def)

lemma fits_run:
  assumes "k \<le> length (takeWhile (cset_match True Digit) (drop a s))" and "a \<le> length s"
  shows "a + k \<le> length s \<and> list_all2 fits (replicate k None) (slice s a (a + k))"
proof -
  from run_all [OF assms(1)] assms(2) have le: "a + k \<le> length s"
    and d: "\<forall>j < k. cset_match True Digit (s ! (a + j))" by auto
  have len: "length (slice s a (a + k)) = k" using le by (simp add: slice_def)
  have "\<forall>i < k. fits None (slice s a (a + k) ! i)"
  proof (intro allI impI)
    fix i assume i: "i < k"
    with le have "slice s a (a + k) ! i = s ! (a + i)" by (simp add: slice_def)
    with d i show "fits None (slice s a (a + k) ! i)" by (simp add: fits_def)
  qed
  with len have "list_all2 fits (replicate k None) (slice s a (a + k))"
    by (simp add: list_all2_conv_all_nth)
  with le show ?thesis by simp
qed

lemma items_match:
  assumes "list_all simple_item items" and "a \<le> length s"
    and "(j, g') \<in> set (rmatch True (rseq items) s (a, g))"
  shows "g' = g \<and> a \<le> j \<and> j \<le> length s
         \<and> list_all2 fits (concat (map item_shape items)) (slice s a j)"
  using assms
proof (induction items arbitrary: a)
  case Nil
  then show ?case by (simp add: rseq_Nil slice_same)
next
  case (Cons it items)
  from Cons.prems(1) have sit: "simple_item it" and rest: "list_all simple_item items" by simp_all
  from Cons.prems(3) have m: "(j, g') \<in> set (rmatch True (Cat it (rseq items)) s (a, g))"
    by (simp only: rseq_Cons)
  from sit consider (rep) k where "it = Rep Digit k (Some k)"
    | (lit) c where "it = Chr (Lit c)" "\<not> is_upper_chr c" "\<not> is_lower_chr c"
    | (dig) "it = Chr Digit"
    by (cases it rule: simple_item.cases) auto
  then show ?case
  proof cases
    case (rep k)
    from m have m': "(j, g') \<in> set (rmatch True (Cat (Rep Digit k (Some k)) (rseq items)) s (a, g))"
      by (simp only: rep)
    note r = mem_rep_exact [OF m']
    from fits_run [OF r [THEN conjunct1] Cons.prems(2)]
    have le: "a + k \<le> length s" and f: "list_all2 fits (replicate k None) (slice s a (a + k))"
      by simp_all
    from Cons.IH [OF rest le r [THEN conjunct2]]
    have ih: "g' = g" "a + k \<le> j" "j \<le> length s"
      "list_all2 fits (concat (map item_shape items)) (slice s (a + k) j)" by simp_all
    have "slice s a j = slice s a (a + k) @ slice s (a + k) j"
      using ih(2) by (intro slice_append) simp_all
    with f ih(4) have "list_all2 fits (replicate k None @ concat (map item_shape items)) (slice s a j)"
      by (simp add: list_all2_appendI)
    with ih rep show ?thesis by simp
  next
    case (lit c)
    from m have m': "(j, g') \<in> set (rmatch True (Cat (Chr (Lit c)) (rseq items)) s (a, g))"
      by (simp only: lit)
    note r = mem_chr_match [OF m']
    from r have lt: "a < length s" and eq: "s ! a = c"
      by (simp_all add: py_lower_uncased [OF lit(2,3)])
    from lt have le: "Suc a \<le> length s" by simp
    from Cons.IH [OF rest le r [THEN conjunct2, THEN conjunct2]]
    have ih: "g' = g" "Suc a \<le> j" "j \<le> length s"
      "list_all2 fits (concat (map item_shape items)) (slice s (Suc a) j)" by simp_all
    have "slice s a j = slice s a (Suc a) @ slice s (Suc a) j"
      using ih(2) by (intro slice_append) simp_all
    then have "slice s a j = s ! a # slice s (Suc a) j" by (simp add: slice_single [OF lt])
    with eq ih(4) have "list_all2 fits (Some c # concat (map item_shape items)) (slice s a j)"
      by (simp add: fits_def)
    with ih lit show ?thesis by simp
  next
    case dig
    from m have m': "(j, g') \<in> set (rmatch True (Cat (Chr Digit) (rseq items)) s (a, g))"
      by (simp only: dig)
    note r = mem_chr_match [OF m']
    from r have lt: "a < length s" and d: "is_decimal (s ! a)" by simp_all
    from lt have le: "Suc a \<le> length s" by simp
    from Cons.IH [OF rest le r [THEN conjunct2, THEN conjunct2]]
    have ih: "g' = g" "Suc a \<le> j" "j \<le> length s"
      "list_all2 fits (concat (map item_shape items)) (slice s (Suc a) j)" by simp_all
    have "slice s a j = slice s a (Suc a) @ slice s (Suc a) j"
      using ih(2) by (intro slice_append) simp_all
    then have "slice s a j = s ! a # slice s (Suc a) j" by (simp add: slice_single [OF lt])
    with d ih(4) have "list_all2 fits (None # concat (map item_shape items)) (slice s a j)"
      by (simp add: fits_def)
    with ih dig show ?thesis by simp
  qed
qed

lemma numero_shape_items:
  "numero_shape = rseq [Rep Digit 7 (Some 7), Chr (Lit CHR ''-''), Rep Digit 2 (Some 2),
       Chr (Lit CHR ''.''), Rep Digit 4 (Some 4), Chr (Lit CHR ''.''), Chr Digit,
       Chr (Lit CHR ''.''), Rep Digit 2 (Some 2), Chr (Lit CHR ''.''), Rep Digit 4 (Some 4)]"
  by (simp only: numero_shape_def)

lemma numero_shape_simple:
  "list_all simple_item [Rep Digit 7 (Some 7), Chr (Lit CHR ''-''), Rep Digit 2 (Some 2),
       Chr (Lit CHR ''.''), Rep Digit 4 (Some 4), Chr (Lit CHR ''.''), Chr Digit,
       Chr (Lit CHR ''.''), Rep Digit 2 (Some 2), Chr (Lit CHR ''.''), Rep Digit 4 (Some 4)]"
  by code_simp

lemma numero_shape_shape:
  "concat (map item_shape [Rep Digit 7 (Some 7), Chr (Lit CHR ''-''), Rep Digit 2 (Some 2),
       Chr (Lit CHR ''.''), Rep Digit 4 (Some 4), Chr (Lit CHR ''.''), Chr Digit,
       Chr (Lit CHR ''.''), Rep Digit 2 (Some 2), Chr (Lit CHR ''.''), Rep Digit 4 (Some 4)])
   = case_number_shape"
  by code_simp

lemma numero_shape_match:
  assumes "a \<le> length s" and "(j, g') \<in> set (rmatch True numero_shape s (a, g))"
  shows "g' = g \<and> j = a + 25 \<and> j \<le> length s \<and> conforms (slice s a j)"
proof -
  from assms(2) items_match [OF numero_shape_simple assms(1), of j g' g]
  have r: "g' = g" "a \<le> j" "j \<le> length s" "list_all2 fits case_number_shape (slice s a j)"
    by (simp_all only: numero_shape_items numero_shape_shape)
  from r(4) have "length (slice s a j) = length case_number_shape" by (simp add: list_all2_lengthD)
  moreover have "length case_number_shape = 25" by code_simp
  moreover have "length (slice s a j) = j - a" using r(3) by (simp add: slice_def)
  ultimately have "j = a + 25" using r(2) by simp
  with r show ?thesis by (simp add: conforms_def)
qed

text \<open>The text branch: the result is the text of group 1 of the first match, twenty-five
  characters of \<open>text\<close> that end where the match ends, and it has the shape of a case
  number.\<close>

lemma resolve_from_text:
  assumes "re_search True padrao_numero text = Some (b, e, g)"
  shows "25 \<le> e \<and> e \<le> length text
         \<and> extrair_numero_processo text nome_arquivo = Some (slice text (e - 25) e)
         \<and> conforms (slice text (e - 25) e)"
proof -
  from re_search_Some [OF assms] have b: "b \<le> length text"
    and m: "(e, g) \<in> set (rmatch True padrao_numero text (b, []))" by simp_all
  from m have 0: "(e, g) \<in> set (rmatch True (Cat (lits ''Processo'') (Cat (Rep Space 1 None)
      (Cat (lits ''n'') (Cat (Chr (OneOf [ord_masc, CHR ''#''])) (Cat (Chr (Lit CHR '':''))
      (Cat (Rep Space 0 None) (Cat (Grp 1 numero_shape) Eps))))))) text (b, []))"
    by (simp only: padrao_numero_def rseq_Cons rseq_Nil)
  note 1 = mem_lits [OF b 0]
  from mem_rep [OF 1 [THEN conjunct2]] obtain k1 where
    k1: "k1 \<le> length (takeWhile (cset_match True Space) (drop (b + length ''Processo'') text))"
    and 2: "(e, g) \<in> set (rmatch True (Cat (lits ''n'') (Cat (Chr (OneOf [ord_masc, CHR ''#'']))
      (Cat (Chr (Lit CHR '':'')) (Cat (Rep Space 0 None) (Cat (Grp 1 numero_shape) Eps)))))
      text (b + length ''Processo'' + k1, []))"
    by blast
  from run_bound [OF 1 [THEN conjunct1], of "cset_match True Space"] k1
  have p2: "b + length ''Processo'' + k1 \<le> length text" by simp
  note 3 = mem_lits [OF p2 2]
  note 4 = mem_chr_match [OF 3 [THEN conjunct2], THEN conjunct2, THEN conjunct2]
  note 5 = mem_chr_match [OF 4]
  from 5 have p5: "Suc (Suc (b + length ''Processo'' + k1 + length ''n'')) \<le> length text" by simp
  from mem_rep [OF 5 [THEN conjunct2, THEN conjunct2]] obtain k2 where
    k2: "k2 \<le> length (takeWhile (cset_match True Space)
           (drop (Suc (Suc (b + length ''Processo'' + k1 + length ''n''))) text))"
    and 6: "(e, g) \<in> set (rmatch True (Cat (Grp 1 numero_shape) Eps) text
           (Suc (Suc (b + length ''Processo'' + k1 + length ''n'')) + k2, []))"
    by blast
  define a where "a = Suc (Suc (b + length ''Processo'' + k1 + length ''n'')) + k2"
  from run_bound [OF p5, of "cset_match True Space"] k2 have a: "a \<le> length text"
    unfolding a_def by simp
  from mem_grp [OF 6] obtain j g'' where
    7: "(j, g'') \<in> set (rmatch True numero_shape text (a, []))"
    and 8: "(e, g) \<in> set (rmatch True Eps text (j, (1, a, j) # g''))"
    unfolding a_def by blast
  from numero_shape_match [OF a 7] have n: "g'' = []" "j = a + 25" "a + 25 \<le> length text"
    "conforms (slice text a (a + 25))" by auto
  from 8 n have e: "e = a + 25" and g: "g = [(1, a, a + 25)]" by simp_all
  have "group text (b, e, g) 1 = Some (slice text a (a + 25))"
    by (simp add: group_def g slice_def)
  then have "extrair_numero_processo text nome_arquivo = Some (slice text a (a + 25))"
    by (simp add: extrair_numero_processo_def assms)
  with n e show ?thesis by simp
qed

text \<open>The fallback on a stem of twenty decimal digits.\<close>

lemma resolve_from_stem:
  assumes "re_search True padrao_numero text = None"
    and "length (path_stem nome_arquivo) = 20"
    and "list_all is_decimal (path_stem nome_arquivo)"
  shows "extrair_numero_processo text nome_arquivo =
           Some (slice (path_stem nome_arquivo) 0 7 @ ''-'' @ slice (path_stem nome_arquivo) 7 9 @ ''.''
                 @ slice (path_stem nome_arquivo) 9 13 @ ''.'' @ [path_stem nome_arquivo ! 13] @ ''.''
                 @ slice (path_stem nome_arquivo) 14 16 @ ''.'' @ slice (path_stem nome_arquivo) 16 20)
         \<and> conforms (slice (path_stem nome_arquivo) 0 7 @ ''-'' @ slice (path_stem nome_arquivo) 7 9 @ ''.''
                 @ slice (path_stem nome_arquivo) 9 13 @ ''.'' @ [path_stem nome_arquivo ! 13] @ ''.''
                 @ slice (path_stem nome_arquivo) 14 16 @ ''.'' @ slice (path_stem nome_arquivo) 16 20)"
proof -
  let ?s = "path_stem nome_arquivo"
  from assms(3) have dig: "list_all is_digit ?s"
    by (induction ?s) (auto simp: is_digit_def list_all_iff)
  from assms(2) have ne: "?s \<noteq> []" by auto
  from dig ne have "str_isdigit ?s" by (simp add: str_isdigit_def)
  with assms(1,2) have r: "extrair_numero_processo text nome_arquivo =
           Some (slice ?s 0 7 @ ''-'' @ slice ?s 7 9 @ ''.'' @ slice ?s 9 13 @ ''.'' @ [?s ! 13] @ ''.''
                 @ slice ?s 14 16 @ ''.'' @ slice ?s 16 20)"
    by (simp add: extrair_numero_processo_def Let_def)
  have d: "is_decimal (?s ! i)" if "i < 20" for i
    using assms(2,3) that by (simp add: list_all_length)
  have piece: "list_all2 fits (replicate (j - i) None) (slice ?s i j)" if "j \<le> 20" for i j
  proof -
    from that assms(2) have len: "length (slice ?s i j) = j - i" by (simp add: slice_def)
    have "fits None (slice ?s i j ! k)" if "k < j - i" for k
    proof -
      from that \<open>j \<le> 20\<close> assms(2) have "slice ?s i j ! k = ?s ! (i + k)" "i + k < 20"
        by (simp_all add: slice_def)
      with d show ?thesis by (simp add: fits_def)
    qed
    with len show ?thesis by (simp add: list_all2_conv_all_nth)
  qed
  have one: "list_all2 fits [None] [?s ! 13]" using d [of 13] by (simp add: fits_def)
  have sep: "list_all2 fits [Some c] [c]" for c by (simp add: fits_def)
  have "list_all2 fits
      (replicate (7 - 0) None @ [Some CHR ''-''] @ replicate (9 - 7) None @ [Some CHR ''.'']
       @ replicate (13 - 9) None @ [Some CHR ''.''] @ [None] @ [Some CHR ''.'']
       @ replicate (16 - 14) None @ [Some CHR ''.''] @ replicate (20 - 16) None)
      (slice ?s 0 7 @ ''-'' @ slice ?s 7 9 @ ''.'' @ slice ?s 9 13 @ ''.'' @ [?s ! 13] @ ''.''
                 @ slice ?s 14 16 @ ''.'' @ slice ?s 16 20)"
    by (intro list_all2_appendI piece sep one) simp_all
  then have "conforms (slice ?s 0 7 @ ''-'' @ slice ?s 7 9 @ ''.'' @ slice ?s 9 13 @ ''.'' @ [?s ! 13] @ ''.''
                 @ slice ?s 14 16 @ ''.'' @ slice ?s 16 20)"
    by (simp add: conforms_def case_number_shape_def)
  with r show ?thesis by simp
qed

text \<open>No label in the text and a stem that is not twenty characters that
  \<^verbatim>\<open>str.isdigit\<close> accepts: no case number.\<close>

lemma resolve_absent:
  assumes "re_search True padrao_numero text = None"
    and "\<not> (length (path_stem nome_arquivo) = 20 \<and> list_all is_digit (path_stem nome_arquivo))"
  shows "extrair_numero_processo text nome_arquivo = None"
  using assms by (auto simp: extrair_numero_processo_def Let_def str_isdigit_def)

text \<open>
  C1 (case number). The fallback accepts a stem that \<^verbatim>\<open>str.isdigit\<close> accepts, and
  \<^verbatim>\<open>isdigit\<close> is true of the superscript digits too. For the file name made of twenty
  characters U+00B2 and \<^verbatim>\<open>.pdf\<close>, with a text that holds no label, the stem is not
  made of decimal digits, yet a number is returned, and the pattern of the case number
  does not match it. (A match in the text and a stem of twenty decimal digits give a
  number of that pattern: \<open>resolve_from_text\<close>, \<open>resolve_from_stem\<close>.)
\<close>

theorem superscript_stem_is_formatted:
  "extrair_numero_processo [] (replicate 20 (CHR 0xB2) @ ''.pdf'')
     = Some (replicate 7 (CHR 0xB2) @ ''-'' @ replicate 2 (CHR 0xB2) @ ''.''
             @ replicate 4 (CHR 0xB2) @ ''.'' @ [CHR 0xB2] @ ''.'' @ replicate 2 (CHR 0xB2)
             @ ''.'' @ replicate 4 (CHR 0xB2))
   \<and> path_stem (replicate 20 (CHR 0xB2) @ ''.pdf'') = replicate 20 (CHR 0xB2)
   \<and> \<not> is_decimal (CHR 0xB2)
   \<and> re_match False numero_shape
        (replicate 7 (CHR 0xB2) @ ''-'' @ replicate 2 (CHR 0xB2) @ ''.''
             @ replicate 4 (CHR 0xB2) @ ''.'' @ [CHR 0xB2] @ ''.'' @ replicate 2 (CHR 0xB2)
             @ ''.'' @ replicate 4 (CHR 0xB2)) = None
   \<and> \<not> conforms
        (replicate 7 (CHR 0xB2) @ ''-'' @ replicate 2 (CHR 0xB2) @ ''.''
             @ replicate 4 (CHR 0xB2) @ ''.'' @ [CHR 0xB2] @ ''.'' @ replicate 2 (CHR 0xB2)
             @ ''.'' @ replicate 4 (CHR 0xB2))"
  by code_simp

end
